theory Spec2Isabelle
  imports Complex_Main "HOL-Library.Word"
begin

section \<open>Server: the POST /api/tts handler (server/index.js)\<close>

text \<open>
  A JavaScript string is a sequence of UTF-16 code units; \<open>length\<close> and \<open>slice\<close>
  count code units.  The ellipsis U+2026 is one code unit.
\<close>

type_synonym code_unit = "16 word"
type_synonym jsstring = "code_unit list"

definition ellipsis :: code_unit where
  "ellipsis = 0x2026"

text \<open>The code units removed by \<open>String.prototype.trim\<close> (WhiteSpace and LineTerminator).\<close>

definition js_whitespace :: "code_unit \<Rightarrow> bool" where
  "js_whitespace c \<longleftrightarrow>
     c \<in> set [0x0009, 0x000A, 0x000B, 0x000C, 0x000D, 0x0020, 0x00A0, 0x1680,
               0x2000, 0x2001, 0x2002, 0x2003, 0x2004, 0x2005, 0x2006, 0x2007,
               0x2008, 0x2009, 0x200A, 0x2028, 0x2029, 0x202F, 0x205F, 0x3000, 0xFEFF]"

definition trim :: "jsstring \<Rightarrow> jsstring" where
  "trim s = rev (dropWhile js_whitespace (rev (dropWhile js_whitespace s)))"

text \<open>\<open>text.slice(0, n)\<close> for \<open>0 \<le> n\<close>.\<close>

definition slice0 :: "jsstring \<Rightarrow> nat \<Rightarrow> jsstring" where
  "slice0 s n = take n s"

definition MAX_tts :: nat where
  "MAX_tts = 4800"

text \<open>\<open>const safeText = text.length > MAX ? (text.slice(0, MAX - 1) + "\<dots>") : text;\<close>\<close>

definition safeText :: "jsstring \<Rightarrow> jsstring" where
  "safeText text = (if length text > MAX_tts then slice0 text (MAX_tts - 1) @ [ellipsis] else text)"

text \<open>
  The \<open>text\<close> member of the JSON request body: absent (or \<open>null\<close>), a string, or
  any other JSON value.  \<open>text?.trim()\<close> is \<open>undefined\<close> on an absent member and a
  \<open>TypeError\<close> on a value that is no string (numbers, booleans, arrays and objects of
  a JSON body have no callable \<open>trim\<close>); the handler's \<open>catch\<close> answers it with 500.
\<close>

datatype body_text = Absent | Str jsstring | NotAString

record tts_request =
  has_token :: bool
  body :: body_text

datatype tts_reply = Status500 | Status400

text \<open>
  The handler up to the call of the synthesis provider: either an early reply, or the
  text that is passed to \<open>replicate.run\<close> as \<open>input.text\<close>.
\<close>

definition tts_forwarded :: "tts_request \<Rightarrow> tts_reply + jsstring" where
  "tts_forwarded req =
     (if \<not> has_token req then Inl Status500
      else case body req of
             Absent \<Rightarrow> Inl Status400
           | NotAString \<Rightarrow> Inl Status500
           | Str text \<Rightarrow> if trim text = [] then Inl Status400 else Inr (safeText text))"

section \<open>Client: the energy of an audio frame (client/src/stt.ts, \<open>_rms\<close>)\<close>

text \<open>
  The frame is a \<open>Uint8Array\<close>: every sample is a byte.  The arithmetic is that of
  the reals.  In the source it is binary64 arithmetic, where every \<open>v\<close> and every
  \<open>v * v\<close> is a multiple of \<open>2^-14\<close> of magnitude at most 1, so the running sum (\<open>acc\<close>) is
  exact for every buffer a browser can allocate; only the final division and the square
  root round, and both are monotone.  On an empty buffer the source computes \<open>0 / 0\<close>,
  which is \<open>NaN\<close>: the model answers \<open>None\<close>.
\<close>

type_synonym byte = "8 word"

fun rms_loop :: "byte list \<Rightarrow> real \<Rightarrow> real" where
  "rms_loop [] acc = acc"
| "rms_loop (b # buf) acc =
     (let v = (real_of_int (uint b) - 128) / 128 in rms_loop buf (acc + v * v))"

definition rms :: "byte list \<Rightarrow> real option" where
  "rms buf = (if buf = [] then None else Some (sqrt (rms_loop buf 0 / real (length buf))))"


section \<open>Client: the cache of synthesized clips (client/src/App.tsx, \<open>cacheSet\<close>)\<close>

text \<open>
  \<open>ttsCache\<close> is a JavaScript \<open>Map\<close> from card ids to blob URLs.  A \<open>Map\<close> iterates
  in insertion order, which \<open>cacheSet\<close> relies on, so it is an association list, oldest
  entry first.  \<open>revoked\<close> collects the arguments of \<open>URL.revokeObjectURL\<close>, in call
  order.
\<close>

type_synonym card_id = int
type_synonym url = string
type_synonym jsmap = "(card_id \<times> url) list"

definition map_has :: "jsmap \<Rightarrow> card_id \<Rightarrow> bool" where
  "map_has m k \<longleftrightarrow> k \<in> fst ` set m"

definition map_get :: "jsmap \<Rightarrow> card_id \<Rightarrow> url option" where
  "map_get m k = map_of m k"

text \<open>\<open>Map.prototype.set\<close>: a new key goes last, a present key keeps its place.\<close>

definition map_set :: "jsmap \<Rightarrow> card_id \<Rightarrow> url \<Rightarrow> jsmap" where
  "map_set m k v = (if map_has m k then map (\<lambda>(k', v'). if k' = k then (k', v) else (k', v')) m
                    else m @ [(k, v)])"

definition map_delete :: "jsmap \<Rightarrow> card_id \<Rightarrow> jsmap" where
  "map_delete m k = filter (\<lambda>(k', v'). k' \<noteq> k) m"

text \<open>\<open>m.keys().next().value\<close>: the first key, \<open>undefined\<close> on an empty map.\<close>

definition map_first_key :: "jsmap \<Rightarrow> card_id option" where
  "map_first_key m = (case m of [] \<Rightarrow> None | (k, v) # _ \<Rightarrow> Some k)"

definition startsWith :: "string \<Rightarrow> string \<Rightarrow> bool" where
  "startsWith s p \<longleftrightarrow> take (length p) s = p"

definition MAX_CACHE :: nat where
  "MAX_CACHE = 12"

record cache_state =
  ttsCache :: jsmap
  revoked :: "url list"

text \<open>
  The eviction branch reads \<open>oldest\<close> and \<open>oldUrl\<close> under non-null assertions; a
  missing value would throw inside the \<open>try\<close> (no revocation) and \<open>delete\<close> of an
  absent key does nothing.
\<close>

definition cacheSet :: "card_id \<Rightarrow> url \<Rightarrow> cache_state \<Rightarrow> cache_state" where
  "cacheSet cardId blobUrl s =
     (if \<not> map_has (ttsCache s) cardId then
        let c = map_set (ttsCache s) cardId blobUrl in
        if length c > MAX_CACHE then
          (case map_first_key c of
             None \<Rightarrow> s\<lparr>ttsCache := c\<rparr>
           | Some oldest \<Rightarrow>
               let r = (case map_get c oldest of
                          Some oldUrl \<Rightarrow>
                            if startsWith oldUrl ''blob:'' then revoked s @ [oldUrl] else revoked s
                        | None \<Rightarrow> revoked s)
               in s\<lparr>ttsCache := map_delete c oldest, revoked := r\<rparr>)
        else s\<lparr>ttsCache := c\<rparr>
      else s)"

text \<open>A sequence of \<open>cacheSet\<close> calls, in order.\<close>

fun cacheSet_all :: "(card_id \<times> url) list \<Rightarrow> cache_state \<Rightarrow> cache_state" where
  "cacheSet_all [] s = s"
| "cacheSet_all ((k, v) # kvs) s = cacheSet_all kvs (cacheSet k v s)"

definition empty_cache :: cache_state where
  "empty_cache = \<lparr>ttsCache = [], revoked = []\<rparr>"

text \<open>The invariant of the cache.\<close>

definition cache_inv :: "cache_state \<Rightarrow> bool" where
  "cache_inv s \<longleftrightarrow> distinct (map fst (ttsCache s)) \<and> length (ttsCache s) \<le> MAX_CACHE"

text \<open>Thirteen distinct ids with their handles, for the example of the specification.\<close>

definition thirteen :: "(card_id \<times> url) list" where
  "thirteen = [(1, ''blob:a''), (2, ''blob:b''), (3, ''blob:c''), (4, ''blob:d''),
     (5, ''blob:e''), (6, ''blob:f''), (7, ''blob:g''), (8, ''blob:h''), (9, ''blob:i''),
     (10, ''blob:j''), (11, ''blob:k''), (12, ''blob:l''), (13, ''blob:m'')]"


section \<open>Client: capturing one utterance (client/src/stt.ts, \<open>SpeechOnce\<close>)\<close>

text \<open>
  The options of \<open>SpeechOnce\<close>, every one optional, and the values
  \<open>recordOneUtterance\<close> destructures from them with its defaults.  Frame counts are
  integers, thresholds and times are reals (milliseconds).
\<close>

record opts =
  opt_rmsThreshold :: "real option"
  opt_startFrames :: "int option"
  opt_endFrames :: "int option"
  opt_frameMs :: "real option"
  opt_maxUtteranceMs :: "real option"

record config =
  rmsThreshold :: real
  startFrames :: int
  endFrames :: int
  maxUtteranceMs :: real

text \<open>\<open>Math.round\<close> rounds half up.\<close>

definition math_round :: "real \<Rightarrow> int" where
  "math_round x = \<lfloor>x + 1 / 2\<rfloor>"

definition destructure :: "opts \<Rightarrow> config" where
  "destructure os =
     (let frameMs = (case opt_frameMs os of Some f \<Rightarrow> f | None \<Rightarrow> 50) in
      \<lparr>rmsThreshold = (case opt_rmsThreshold os of Some r \<Rightarrow> r | None \<Rightarrow> 0.02),
       startFrames = (case opt_startFrames os of Some n \<Rightarrow> n | None \<Rightarrow> 4),
       endFrames = (case opt_endFrames os of Some n \<Rightarrow> n
                    | None \<Rightarrow> max 1 (math_round (3000 / max 1 frameMs))),
       maxUtteranceMs = (case opt_maxUtteranceMs os of Some m \<Rightarrow> m | None \<Rightarrow> 60000)\<rparr>)"

text \<open>The options \<open>startListeningForAnswer\<close> of App.tsx constructs its recorder with.\<close>

definition app_opts :: opts where
  "app_opts = \<lparr>opt_rmsThreshold = Some 0.02, opt_startFrames = Some 4, opt_endFrames = None,
                opt_frameMs = None, opt_maxUtteranceMs = Some 60000\<rparr>"

text \<open>
  What the capture does to the outside, in order: the calls on the \<open>MediaRecorder\<close>
  and the two notification callbacks.
\<close>

datatype effect = RecStart nat | RecRequestData | RecStop | OnStartRecording | OnStopRecording

text \<open>
  A blob is the list of the sizes of the chunks it was built from.  Before any call
  there is no promise (\<open>NotCalled\<close>).  The promise returned by
  \<open>recordOneUtterance\<close> is pending with an animation frame requested (\<open>Polling\<close>),
  pending with the 150 ms timer set (\<open>Flushing\<close>), resolved, or pending with no
  callback left that could resolve it (\<open>Hung\<close>).
\<close>

type_synonym blob = "nat list"

datatype phase = NotCalled | Polling | Flushing | Resolved "blob option" | Hung

text \<open>
  The fields of the \<open>SpeechOnce\<close> instance (\<open>_running\<close>, whether \<open>_analyser\<close> and
  \<open>_rec\<close> are set, \<open>_chunks\<close>), the local variables of the pending
  \<open>recordOneUtterance\<close> call, and the effects so far.
\<close>

record recorder =
  running :: bool
  has_analyser :: bool
  has_rec :: bool
  chunks :: "nat list"
  speakingFrames :: nat
  silenceFrames :: nat
  recording :: bool
  startedAt :: real
  effects :: "effect list"
  phase :: phase

text \<open>A constructed instance, and one whose \<open>start()\<close> has completed.\<close>

definition constructed :: recorder where
  "constructed = \<lparr>running = False, has_analyser = False, has_rec = False, chunks = [],
     speakingFrames = 0, silenceFrames = 0, recording = False, startedAt = 0, effects = [],
     phase = NotCalled\<rparr>"

definition started :: recorder where
  "started = constructed\<lparr>running := True, has_analyser := True, has_rec := True\<rparr>"

text \<open>
  \<open>try { this._rec!.f() } catch {}\<close>: the call is made when \<open>_rec\<close> is set; on
  \<open>null\<close> the \<open>TypeError\<close> is swallowed, as is any exception of the call itself.
\<close>

definition rec_call :: "effect \<Rightarrow> recorder \<Rightarrow> recorder" where
  "rec_call c s = (if has_rec s then s\<lparr>effects := effects s @ [c]\<rparr> else s)"

definition notify :: "effect \<Rightarrow> recorder \<Rightarrow> recorder" where
  "notify c s = s\<lparr>effects := effects s @ [c]\<rparr>"

text \<open>
  Both stop branches of \<open>tick\<close>: \<open>requestData()\<close>, then \<open>stop()\<close>, then
  \<open>setTimeout(..., 150)\<close> and \<open>return\<close>.
\<close>

definition force_stop :: "recorder \<Rightarrow> recorder" where
  "force_stop s = (rec_call RecStop (rec_call RecRequestData s))\<lparr>phase := Flushing\<rparr>"

text \<open>
  One run of \<open>tick\<close>, with the energy \<open>_rms\<close> computed from the analyser's frame and
  the value of \<open>performance.now()\<close>.  Leaving the phase \<open>Polling\<close> is the final
  \<open>requestAnimationFrame(tick)\<close>.
\<close>

definition tick :: "config \<Rightarrow> real \<Rightarrow> real \<Rightarrow> recorder \<Rightarrow> recorder" where
  "tick cfg energy now s =
     (if \<not> running s \<or> \<not> has_analyser s then s\<lparr>phase := Resolved None\<rparr>
      else if \<not> recording s then
        let sp = (if energy > rmsThreshold cfg then speakingFrames s + 1 else 0);
            s1 = (if int sp \<ge> startFrames cfg
                  then notify OnStartRecording
                         ((rec_call (RecStart 250) (s\<lparr>speakingFrames := sp\<rparr>))
                            \<lparr>recording := True, silenceFrames := 0\<rparr>)
                  else s\<lparr>speakingFrames := sp\<rparr>)
        in if now - startedAt s > maxUtteranceMs cfg then force_stop s1 else s1
      else
        let si = (if energy \<le> rmsThreshold cfg then silenceFrames s + 1 else 0);
            s1 = s\<lparr>silenceFrames := si\<rparr>
        in if int si \<ge> endFrames cfg then force_stop s1
           else if now - startedAt s > maxUtteranceMs cfg then force_stop s1 else s1)"

text \<open>The handler of \<open>dataavailable\<close>, installed by \<open>start()\<close>.\<close>

definition ondataavailable :: "nat \<Rightarrow> recorder \<Rightarrow> recorder" where
  "ondataavailable sz s = (if sz > 0 then s\<lparr>chunks := chunks s @ [sz]\<rparr> else s)"

text \<open>
  The callback of the 150 ms timer.  It reads \<open>this._rec!.mimeType\<close> outside any
  \<open>try\<close>: when \<open>_rec\<close> is \<open>null\<close> the callback throws before it reaches
  \<open>resolve\<close>, and nothing else is scheduled.
\<close>

definition finalize :: "recorder \<Rightarrow> recorder" where
  "finalize s =
     (if \<not> has_rec s then s\<lparr>phase := Hung\<rparr>
      else (notify OnStopRecording s)
             \<lparr>phase := Resolved (if chunks s = [] then None else Some (chunks s))\<rparr>)"

text \<open>
  \<open>recordOneUtterance()\<close> up to its first suspension, called at time \<open>now\<close>: the
  guard, the reset of the counters and of \<open>_chunks\<close>, and the first
  \<open>requestAnimationFrame(tick)\<close>.
\<close>

definition recordOneUtterance :: "real \<Rightarrow> recorder \<Rightarrow> recorder" where
  "recordOneUtterance now s =
     (if \<not> running s \<or> \<not> has_analyser s \<or> \<not> has_rec s then s\<lparr>phase := Resolved None\<rparr>
      else s\<lparr>speakingFrames := 0, silenceFrames := 0, recording := False, chunks := [],
             startedAt := now, phase := Polling\<rparr>)"

text \<open>
  \<open>stop()\<close> has one suspension point, \<open>await this._ac?.close()\<close>: before it
  \<open>_running\<close> is cleared, after it \<open>_analyser\<close> and \<open>_rec\<close> are.
\<close>

definition stop_called :: "recorder \<Rightarrow> recorder" where
  "stop_called s = s\<lparr>running := False\<rparr>"

definition stop_resumed :: "recorder \<Rightarrow> recorder" where
  "stop_resumed s = s\<lparr>has_analyser := False, has_rec := False\<rparr>"

text \<open>
  What the event loop can run while the promise is pending: an animation frame (with
  the energy of the frame and the clock), a \<open>dataavailable\<close> event with the size of
  its blob, the 150 ms timer, and the two halves of an external \<open>stop()\<close>.  A callback
  that is not scheduled in the current phase does not run.
\<close>

datatype event = Tick real real | Data nat | Timeout | StopCalled | StopResumed

fun step :: "config \<Rightarrow> event \<Rightarrow> recorder \<Rightarrow> recorder" where
  "step cfg (Tick energy now) s = (if phase s = Polling then tick cfg energy now s else s)"
| "step cfg (Data sz) s = ondataavailable sz s"
| "step cfg Timeout s = (if phase s = Flushing then finalize s else s)"
| "step cfg StopCalled s = stop_called s"
| "step cfg StopResumed s = stop_resumed s"

fun run :: "config \<Rightarrow> event list \<Rightarrow> recorder \<Rightarrow> recorder" where
  "run cfg [] s = s"
| "run cfg (ev # evs) s = run cfg evs (step cfg ev s)"

text \<open>A sequence of energy readings contains \<open>n\<close> consecutive readings above the threshold.\<close>

definition has_loud_run :: "nat \<Rightarrow> real \<Rightarrow> real list \<Rightarrow> bool" where
  "has_loud_run n thr es \<longleftrightarrow>
     (\<exists>i \<le> length es. i + n \<le> length es \<and> (\<forall>j < n. es ! (i + j) > thr))"

text \<open>Animation frames given as pairs of an energy reading and a clock reading.\<close>

definition ticks :: "(real \<times> real) list \<Rightarrow> event list" where
  "ticks fs = map (\<lambda>(e, now). Tick e now) fs"

text \<open>The number of readings above the threshold at the end of a sequence.\<close>

definition loud_suffix :: "real \<Rightarrow> real list \<Rightarrow> nat" where
  "loud_suffix thr es = length (takeWhile (\<lambda>e. e > thr) (rev es))"

text \<open>
  The capture \<open>s'\<close> is recording and polling, and since \<open>s\<close> it has at most
  started the recorder: same start time, same chunks, no further effect but the start.
\<close>

definition capturing :: "recorder \<Rightarrow> recorder \<Rightarrow> bool" where
  "capturing s s' \<longleftrightarrow> phase s' = Polling \<and> running s' \<and> has_analyser s' \<and> recording s'
      \<and> startedAt s' = startedAt s \<and> chunks s' = chunks s
      \<and> (\<exists>pre. effects s' = effects s @ pre \<and> set pre \<subseteq> {RecStart 250, OnStartRecording})"


section \<open>Client: prefetching and speaking (client/src/App.tsx)\<close>

text \<open>
  The part of the component's state that the synthesis paths share: the cache, the
  \<open>inflight\<close> set, the audio element's \<open>ttsUrl\<close>, and the synthesis requests that are
  outstanding, each an \<open>async\<close> call suspended on its network round trips.
\<close>

datatype task = PrefetchTask card_id | OnDemandTask card_id

record client =
  cache :: cache_state
  inflight :: "card_id set"
  ttsUrl :: "url option"
  pending :: "task list"

definition init_client :: client where
  "init_client = \<lparr>cache = empty_cache, inflight = {}, ttsUrl = None, pending = []\<rparr>"

text \<open>
  How the awaited work of one card ends: an exception (a request that fails, a reply
  that is no JSON), no URL (\<open>ttsFetchToBlobUrl\<close> returns \<open>null\<close>: empty text, or a
  reply that is not \<open>ok\<close>), or the blob URL of the clip, which the code uses when it
  is truthy, that is not empty.
\<close>

datatype outcome = Failed | NoUrl | Url url

datatype exn = Exn

text \<open>
  \<open>prefetchOneCard\<close> up to its first \<open>await\<close>: the admission check and
  \<open>inflight.add\<close>.  The flag tells whether the card was admitted.
\<close>

definition prefetchOneCard_begin :: "card_id \<Rightarrow> client \<Rightarrow> client \<times> bool" where
  "prefetchOneCard_begin cardId s =
     (if map_has (ttsCache (cache s)) cardId \<or> cardId \<in> inflight s then (s, False)
      else (s\<lparr>inflight := insert cardId (inflight s),
              pending := pending s @ [PrefetchTask cardId]\<rparr>, True))"

text \<open>
  The rest of \<open>prefetchOneCard\<close>, run when the awaited work has ended: the end of the
  \<open>try\<close> block, the \<open>catch\<close> that logs, and the \<open>finally\<close> with
  \<open>inflight.delete\<close>.  No statement between the first \<open>await\<close> and this point
  touches the shared state.
\<close>

definition prefetchOneCard_try :: "card_id \<Rightarrow> outcome \<Rightarrow> client \<Rightarrow> exn + client" where
  "prefetchOneCard_try cardId out s =
     (case out of
        Failed \<Rightarrow> Inl Exn
      | NoUrl \<Rightarrow> Inr s
      | Url blobUrl \<Rightarrow>
          Inr (if blobUrl \<noteq> [] then s\<lparr>cache := cacheSet cardId blobUrl (cache s)\<rparr> else s))"

definition prefetchOneCard_catch :: "client \<Rightarrow> exn + client \<Rightarrow> exn + client" where
  "prefetchOneCard_catch s r = (case r of Inl e \<Rightarrow> Inr s | Inr s' \<Rightarrow> Inr s')"

definition prefetchOneCard_finally :: "card_id \<Rightarrow> client \<Rightarrow> exn + client \<Rightarrow> exn + client" where
  "prefetchOneCard_finally cardId s r =
     (let fin = (\<lambda>c. c\<lparr>inflight := inflight c - {cardId},
                        pending := remove1 (PrefetchTask cardId) (pending c)\<rparr>)
      in case r of Inl e \<Rightarrow> Inl e | Inr s' \<Rightarrow> Inr (fin s'))"

definition prefetchOneCard_end :: "card_id \<Rightarrow> outcome \<Rightarrow> client \<Rightarrow> exn + client" where
  "prefetchOneCard_end cardId out s =
     prefetchOneCard_finally cardId s (prefetchOneCard_catch s (prefetchOneCard_try cardId out s))"

text \<open>
  \<open>ttsSpeakCardFront\<close> up to its first \<open>await\<close>: a card id that is falsy (0)
  returns at once; otherwise only the cache is consulted, and a cached URL is used when
  it is truthy.  The flag tells whether a synthesis was requested.
\<close>

definition ttsSpeakCardFront_begin :: "card_id \<Rightarrow> client \<Rightarrow> client \<times> bool" where
  "ttsSpeakCardFront_begin cardId s =
     (if cardId = 0 then (s, False)
      else case map_get (ttsCache (cache s)) cardId of
        Some cached \<Rightarrow>
          if cached \<noteq> [] then (s\<lparr>ttsUrl := Some cached\<rparr>, False)
          else (s\<lparr>pending := pending s @ [OnDemandTask cardId]\<rparr>, True)
      | None \<Rightarrow> (s\<lparr>pending := pending s @ [OnDemandTask cardId]\<rparr>, True))"

text \<open>
  \<open>ttsSpeakCardFront\<close> after the awaited synthesis; there is no \<open>try\<close> here, an
  exception rejects the call.
\<close>

definition ttsSpeakCardFront_end :: "card_id \<Rightarrow> outcome \<Rightarrow> client \<Rightarrow> exn + client" where
  "ttsSpeakCardFront_end cardId out s =
     (let s' = s\<lparr>pending := remove1 (OnDemandTask cardId) (pending s)\<rparr> in
      case out of
        Failed \<Rightarrow> Inl Exn
      | NoUrl \<Rightarrow> Inr s'
      | Url blobUrl \<Rightarrow>
          Inr (if blobUrl \<noteq> []
               then s'\<lparr>cache := cacheSet cardId blobUrl (cache s'), ttsUrl := Some blobUrl\<rparr>
               else s'))"

text \<open>
  The interleavings of the two paths: calls of \<open>prefetchOneCard\<close> (by the workers of
  any number of \<open>warmPrefetch\<close> calls) and of \<open>ttsSpeakCardFront\<close>, and the ends of
  the awaited work of a request that is outstanding.  An exception of the on-demand
  path leaves the shared state as it is.
\<close>

datatype pevent =
  CallPrefetch card_id | PrefetchDone card_id outcome | CallSpeak card_id | SpeakDone card_id outcome

fun pstep :: "pevent \<Rightarrow> client \<Rightarrow> client" where
  "pstep (CallPrefetch cardId) s = fst (prefetchOneCard_begin cardId s)"
| "pstep (PrefetchDone cardId out) s =
     (if PrefetchTask cardId \<in> set (pending s)
      then (case prefetchOneCard_end cardId out s of Inr s' \<Rightarrow> s' | Inl e \<Rightarrow> s)
      else s)"
| "pstep (CallSpeak cardId) s = fst (ttsSpeakCardFront_begin cardId s)"
| "pstep (SpeakDone cardId out) s =
     (if OnDemandTask cardId \<in> set (pending s)
      then (case ttsSpeakCardFront_end cardId out s of
              Inr s' \<Rightarrow> s'
            | Inl e \<Rightarrow> s\<lparr>pending := remove1 (OnDemandTask cardId) (pending s)\<rparr>)
      else s)"

fun prun :: "pevent list \<Rightarrow> client \<Rightarrow> client" where
  "prun [] s = s"
| "prun (ev # evs) s = prun evs (pstep ev s)"

text \<open>The ids with an outstanding request, of the speculative path and of both paths.\<close>

definition prefetching :: "client \<Rightarrow> card_id list" where
  "prefetching s = concat (map (\<lambda>t. case t of PrefetchTask c \<Rightarrow> [c] | OnDemandTask c \<Rightarrow> []) (pending s))"

definition synthesizing :: "client \<Rightarrow> card_id list" where
  "synthesizing s = map (\<lambda>t. case t of PrefetchTask c \<Rightarrow> c | OnDemandTask c \<Rightarrow> c) (pending s)"


subsection \<open>The worker pool of \<open>warmPrefetch\<close>\<close>

definition PREFETCH_COUNT :: nat where
  "PREFETCH_COUNT = 5"

definition CONCURRENCY :: nat where
  "CONCURRENCY = 4"

text \<open>
  The reply to \<open>API.candidates\<close>: the request fails (the \<open>await\<close> throws), the reply
  is not \<open>ok\<close> or has no ids, or it has ids.
\<close>

datatype candidates_reply = CandidatesFailed | CandidatesNone | CandidatesIds "card_id list"

text \<open>
  A worker is the \<open>async function run\<close>: about to test \<open>queue.length\<close> (\<open>Ready\<close>),
  suspended on the \<open>prefetchOneCard\<close> of a card it was admitted for (\<open>Awaiting\<close>),
  returned (\<open>Finished\<close>), or rejected.
\<close>

datatype worker = Ready | Awaiting card_id | Finished | Rejected

text \<open>
  \<open>taken\<close> lists the ids the workers have shifted off the queue, that is the calls of
  \<open>prefetchOneCard\<close>, in order.
\<close>

record warm =
  cl :: client
  queue :: "card_id list"
  workers :: "worker list"
  taken :: "card_id list"

text \<open>
  One iteration of a worker's loop up to its next suspension.  A card that is not
  admitted makes \<open>prefetchOneCard\<close> return at once; the worker's \<open>await\<close> of it
  yields and the worker is \<open>Ready\<close> again.
\<close>

definition worker_loop :: "nat \<Rightarrow> warm \<Rightarrow> warm" where
  "worker_loop i w =
     (case queue w of
        [] \<Rightarrow> w\<lparr>workers := (workers w)[i := Finished]\<rparr>
      | cardId # rest \<Rightarrow>
          let (c, admitted) = prefetchOneCard_begin cardId (cl w) in
          w\<lparr>cl := c, queue := rest, taken := taken w @ [cardId],
            workers := (workers w)[i := (if admitted then Awaiting cardId else Ready)]\<rparr>)"

text \<open>
  \<open>warmPrefetch\<close> after the candidates have arrived: the list, the queue, and the
  \<open>for\<close> loop that creates the workers.  A worker runs its first iteration as soon
  as it is created, before the loop tests \<open>i < Math.min(CONCURRENCY, queue.length)\<close>
  again, so the test sees the queue shortened by the workers created so far.
\<close>

definition candidate_list :: "candidates_reply \<Rightarrow> card_id option \<Rightarrow> nat \<Rightarrow> card_id list" where
  "candidate_list reply excludeCardId n =
     (case reply of
        CandidatesIds cardIds \<Rightarrow> take n (filter (\<lambda>c. Some c \<noteq> excludeCardId) cardIds)
      | _ \<Rightarrow> [])"

function create_workers :: "nat \<Rightarrow> warm \<Rightarrow> warm" where
  "create_workers i w =
     (if i < min CONCURRENCY (length (queue w))
      then create_workers (i + 1) (worker_loop i (w\<lparr>workers := workers w @ [Ready]\<rparr>))
      else w)"
  by pat_completeness auto
termination
  by (relation "measure (\<lambda>(i, w). CONCURRENCY - i)") auto

declare create_workers.simps [simp del]

definition warm_start :: "card_id list \<Rightarrow> client \<Rightarrow> warm" where
  "warm_start list c = create_workers 0 \<lparr>cl = c, queue = list, workers = [], taken = []\<rparr>"

definition warmPrefetch :: "candidates_reply \<Rightarrow> card_id option \<Rightarrow> nat \<Rightarrow> client \<Rightarrow> exn + warm" where
  "warmPrefetch reply excludeCardId n c =
     (case reply of
        CandidatesFailed \<Rightarrow> Inl Exn
      | _ \<Rightarrow> Inr (warm_start (candidate_list reply excludeCardId n) c))"

text \<open>
  What can run while the pool is alive: a worker resumes after a card that was
  skipped, or the work a worker awaits ends.  A rejection of \<open>prefetchOneCard\<close> would
  reject the worker.
\<close>

datatype wevent = Resume nat | Done nat outcome

fun wstep :: "wevent \<Rightarrow> warm \<Rightarrow> warm" where
  "wstep (Resume i) w =
     (if i < length (workers w) \<and> workers w ! i = Ready then worker_loop i w else w)"
| "wstep (Done i out) w =
     (if i < length (workers w) then
        (case workers w ! i of
           Awaiting cardId \<Rightarrow>
             (case prefetchOneCard_end cardId out (cl w) of
                Inr c \<Rightarrow> w\<lparr>cl := c, workers := (workers w)[i := Ready]\<rparr>
              | Inl e \<Rightarrow> w\<lparr>workers := (workers w)[i := Rejected]\<rparr>)
         | _ \<Rightarrow> w)
      else w)"

fun wrun :: "wevent list \<Rightarrow> warm \<Rightarrow> warm" where
  "wrun [] w = w"
| "wrun (ev # evs) w = wrun evs (wstep ev w)"

text \<open>\<open>Promise.all(workers)\<close> has resolved: every worker has returned.\<close>

definition warm_resolved :: "warm \<Rightarrow> bool" where
  "warm_resolved w \<longleftrightarrow> list_all (\<lambda>x. x = Finished) (workers w)"

text \<open>
  The invariant of the speculative path: no card has two outstanding prefetches, and
  \<open>inflight\<close> holds exactly the cards with one.
\<close>

definition prefetch_inv :: "client \<Rightarrow> bool" where
  "prefetch_inv s \<longleftrightarrow> distinct (prefetching s) \<and> inflight s = set (prefetching s)"

text \<open>
  The invariant of the pool: no worker has rejected, and a worker returns only when
  the queue is empty.
\<close>

definition pool_inv :: "warm \<Rightarrow> bool" where
  "pool_inv w \<longleftrightarrow> Rejected \<notin> set (workers w) \<and> (Finished \<in> set (workers w) \<longrightarrow> queue w = [])"


section \<open>Client: the sequencing guard (client/src/App.tsx)\<close>

text \<open>
  The visible state the record-answer flow shares with \<open>handleStart\<close> and \<open>grade\<close>:
  the counter \<open>currentSeqRef\<close>, the chat messages and the recording indicator.
\<close>

datatype role = Assistant | User

record msg =
  msg_role :: role
  msg_text :: "string option"
  msg_html :: "string option"

datatype rec_ui = UiIdle | UiListening | UiRecording

record app =
  currentSeqRef :: nat
  messages :: "msg list"
  recState :: rec_ui

text \<open>The card \<open>API.current()\<close> returns, as far as the two handlers read it.\<close>

record card =
  card_empty :: bool
  card_frontHTML :: "string option"

text \<open>The reply of \<open>API.reviewChain\<close>.\<close>

record chain_reply =
  chain_ok :: bool
  chain_transcript :: "string option"
  chain_reply :: "string option"
  chain_error :: "string option"

text \<open>JavaScript truthiness of an optional string, and \<open>x || d\<close>.\<close>

definition truthy :: "string option \<Rightarrow> bool" where
  "truthy x = (case x of Some s \<Rightarrow> s \<noteq> [] | None \<Rightarrow> False)"

definition or_else :: "string option \<Rightarrow> string \<Rightarrow> string" where
  "or_else x d = (case x of Some s \<Rightarrow> if s \<noteq> [] then s else d | None \<Rightarrow> d)"

definition say :: "role \<Rightarrow> string \<Rightarrow> msg" where
  "say r t = \<lparr>msg_role = r, msg_text = Some t, msg_html = None\<rparr>"

definition show_html :: "string \<Rightarrow> msg" where
  "show_html h = \<lparr>msg_role = Assistant, msg_text = None, msg_html = Some h\<rparr>"

text \<open>
  The synchronous stretch of \<open>grade\<close> after \<open>await API.current()\<close>, and that of
  \<open>handleStart\<close>: each raises the counter by one and shows the next front or a notice.
\<close>

definition grade_advance :: "card \<Rightarrow> app \<Rightarrow> app" where
  "grade_advance next a =
     (let a1 = a\<lparr>currentSeqRef := currentSeqRef a + 1\<rparr> in
      if card_empty next \<or> \<not> truthy (card_frontHTML next)
      then a1\<lparr>messages := messages a1 @ [say Assistant ''Session finished. No more cards.'']\<rparr>
      else a1\<lparr>messages := messages a1 @ [show_html (the (card_frontHTML next))]\<rparr>)"

text \<open>The first stretch of \<open>handleStart\<close> with a deck chosen: \<open>setMessages([])\<close>.\<close>

definition handleStart_clicked :: "app \<Rightarrow> app" where
  "handleStart_clicked a = a\<lparr>messages := []\<rparr>"

definition handleStart_advance :: "card \<Rightarrow> app \<Rightarrow> app" where
  "handleStart_advance cur a =
     (let a1 = a\<lparr>currentSeqRef := currentSeqRef a + 1\<rparr> in
      if card_empty cur \<or> \<not> truthy (card_frontHTML cur)
      then a1\<lparr>messages := messages a1 @ [say Assistant ''Reviewer not active.'']\<rparr>
      else a1\<lparr>messages := messages a1 @ [show_html (the (card_frontHTML cur))]\<rparr>)"

text \<open>
  \<open>startListeningForAnswer\<close> is suspended at one of its \<open>await\<close>s (after
  \<open>recordOneUtterance\<close> it remembers whether a blob came back), or has returned.  An
  awaited promise settles by rejecting or with a value.
\<close>

datatype pc =
  AwaitPlayback | AwaitMicStart | AwaitUtterance | AwaitStop bool | AwaitDataURL | AwaitChain
  | AwaitFinalStop | Returned

datatype settled = Rejects | Unit | BlobOrNull bool | DataUrl string | Chain chain_reply

record listening =
  seqAtStart :: nat
  point :: pc

text \<open>The entry of \<open>startListeningForAnswer\<close>, up to \<open>await waitForPlaybackToFinish()\<close>.\<close>

definition startListeningForAnswer :: "nat \<Rightarrow> app \<Rightarrow> listening" where
  "startListeningForAnswer n a =
     \<lparr>seqAtStart = n, point = (if n \<noteq> currentSeqRef a then Returned else AwaitPlayback)\<rparr>"

text \<open>
  The \<open>catch\<close> block, and a \<open>return\<close> from inside the \<open>try\<close>: both go on to the
  \<open>finally\<close>, which awaits \<open>stt.stop()\<close>.
\<close>

definition caught :: "listening \<times> app \<Rightarrow> listening \<times> app" where
  "caught x = (case x of (l, a) \<Rightarrow> (l\<lparr>point := AwaitFinalStop\<rparr>, a\<lparr>recState := UiIdle\<rparr>))"

definition returns :: "listening \<times> app \<Rightarrow> listening \<times> app" where
  "returns x = (case x of (l, a) \<Rightarrow> (l\<lparr>point := AwaitFinalStop\<rparr>, a))"

text \<open>The code after \<open>await API.reviewChain(...)\<close>: the messages are appended unguarded.\<close>

definition apply_chain :: "chain_reply \<Rightarrow> app \<Rightarrow> app" where
  "apply_chain out a =
     (if chain_ok out then
        let a1 = a\<lparr>messages := messages a @ [say User (or_else (chain_transcript out) ''(no speech)'')]\<rparr>
        in if truthy (chain_reply out)
           then a1\<lparr>messages := messages a1 @ [say Assistant (the (chain_reply out))]\<rparr>
           else a1
      else a\<lparr>messages := messages a @ [say Assistant (or_else (chain_error out) ''(review failed)'')]\<rparr>)"

text \<open>
  The flow resumes when the promise it awaits settles, and runs to its next \<open>await\<close>.
  A value of a kind the awaited promise cannot produce does not occur.
\<close>

fun resume :: "settled \<Rightarrow> listening \<times> app \<Rightarrow> listening \<times> app" where
  "resume v (l, a) =
     (case (point l, v) of
        (Returned, _) \<Rightarrow> (l, a)
      | (AwaitFinalStop, _) \<Rightarrow> (l\<lparr>point := Returned\<rparr>, a)
      | (_, Rejects) \<Rightarrow> caught (l, a)
      | (AwaitPlayback, Unit) \<Rightarrow> (l\<lparr>point := AwaitMicStart\<rparr>, a)
      | (AwaitMicStart, Unit) \<Rightarrow> (l\<lparr>point := AwaitUtterance\<rparr>, a\<lparr>recState := UiListening\<rparr>)
      | (AwaitUtterance, BlobOrNull b) \<Rightarrow> (l\<lparr>point := AwaitStop b\<rparr>, a\<lparr>recState := UiIdle\<rparr>)
      | (AwaitStop b, Unit) \<Rightarrow> (if \<not> b then returns (l, a) else (l\<lparr>point := AwaitDataURL\<rparr>, a))
      | (AwaitDataURL, DataUrl d) \<Rightarrow>
          (if \<not> startsWith d ''data:audio'' then returns (l, a)
           else if seqAtStart l \<noteq> currentSeqRef a then returns (l, a)
           else (l\<lparr>point := AwaitChain\<rparr>, a))
      | (AwaitChain, Chain out) \<Rightarrow> returns (l, apply_chain out a)
      | _ \<Rightarrow> (l, a))"

text \<open>
  An interleaving: the flow resumes, or a handler runs one of its synchronous
  stretches.
\<close>

datatype sevent = Resume_flow settled | Grade card | Start_clicked | Start card

fun sstep :: "sevent \<Rightarrow> listening \<times> app \<Rightarrow> listening \<times> app" where
  "sstep (Resume_flow v) (l, a) = resume v (l, a)"
| "sstep (Grade next) (l, a) = (l, grade_advance next a)"
| "sstep Start_clicked (l, a) = (l, handleStart_clicked a)"
| "sstep (Start cur) (l, a) = (l, handleStart_advance cur a)"

fun srun :: "sevent list \<Rightarrow> listening \<times> app \<Rightarrow> listening \<times> app" where
  "srun [] x = x"
| "srun (ev # evs) x = srun evs (sstep ev x)"

definition is_resume :: "sevent \<Rightarrow> bool" where
  "is_resume ev = (case ev of Resume_flow v \<Rightarrow> True | _ \<Rightarrow> False)"

text \<open>
  An event is enabled when its worker is at the matching suspension.  Every enabled
  event lowers \<open>pool_measure\<close>, so a pool cannot run forever.
\<close>

fun enabled :: "wevent \<Rightarrow> warm \<Rightarrow> bool" where
  "enabled (Resume i) w \<longleftrightarrow> i < length (workers w) \<and> workers w ! i = Ready"
| "enabled (Done i out) w \<longleftrightarrow>
     i < length (workers w) \<and> (case workers w ! i of Awaiting cardId \<Rightarrow> True | _ \<Rightarrow> False)"

fun worker_weight :: "worker \<Rightarrow> nat" where
  "worker_weight Ready = 1"
| "worker_weight (Awaiting cardId) = 2"
| "worker_weight Finished = 0"
| "worker_weight Rejected = 0"

definition pool_measure :: "warm \<Rightarrow> nat" where
  "pool_measure w = 3 * length (queue w) + sum_list (map worker_weight (workers w))"


section \<open>Properties of the /api/tts handler\<close>

lemma length_safeText: "length (safeText text) \<le> MAX_tts"
  by (simp add: safeText_def slice0_def MAX_tts_def)

lemma tts_forwarded_Inr:
  "tts_forwarded req = Inr t \<longleftrightarrow>
     has_token req \<and> (\<exists>text. body req = Str text \<and> trim text \<noteq> [] \<and> t = safeText text)"
  by (auto simp: tts_forwarded_def split: body_text.splits)

text \<open>
  Claim C10.  A request with a token and a string text that is not blank is forwarded to
  the synthesis provider, and the forwarded text has at most 4800 code units: a text of
  at most 4800 code units is forwarded unchanged, a longer one as its first 4799 code
  units followed by one ellipsis.
\<close>

theorem tts_forwarded_text_bounded:
  assumes "has_token req" and "body req = Str text" and "trim text \<noteq> []"
  shows "\<exists>t. tts_forwarded req = Inr t \<and> length t \<le> 4800
           \<and> (length text \<le> 4800 \<longrightarrow> t = text)
           \<and> (length text > 4800 \<longrightarrow> t = take 4799 text @ [ellipsis] \<and> length t = 4800)"
  using assms by (simp add: tts_forwarded_def safeText_def slice0_def MAX_tts_def)

theorem tts_forwarded_text_bounded_witness:
  "tts_forwarded \<lparr>has_token = True, body = Str (replicate 4801 0x41)\<rparr>
     = Inr (replicate 4799 0x41 @ [ellipsis])
   \<and> tts_forwarded \<lparr>has_token = True, body = Str [0x48, 0x69]\<rparr> = Inr [0x48, 0x69]"
proof -
  let ?long = "replicate 4801 (0x41 :: code_unit)"
  let ?short = "[0x48, 0x69] :: jsstring"
  have ws: "\<not> js_whitespace 0x41" by (simp add: js_whitespace_def)
  have "dropWhile js_whitespace ?long = ?long"
    by (rule dropWhile_eq_self_iff [THEN iffD2]) (simp add: ws)
  moreover have "dropWhile js_whitespace (rev ?long) = rev ?long"
    by (rule dropWhile_eq_self_iff [THEN iffD2]) (simp add: ws)
  ultimately have l: "trim ?long \<noteq> []" by (simp add: trim_def)
  have s: "trim ?short \<noteq> []" by (simp add: trim_def js_whitespace_def)
  have "has_token \<lparr>has_token = True, body = Str ?long\<rparr>"
    and "body \<lparr>has_token = True, body = Str ?long\<rparr> = Str ?long" by simp_all
  from tts_forwarded_text_bounded [OF this l]
  have 1: "tts_forwarded \<lparr>has_token = True, body = Str ?long\<rparr>
             = Inr (replicate 4799 0x41 @ [ellipsis])" by auto
  have "has_token \<lparr>has_token = True, body = Str ?short\<rparr>"
    and "body \<lparr>has_token = True, body = Str ?short\<rparr> = Str ?short" by simp_all
  from tts_forwarded_text_bounded [OF this s]
  have 2: "tts_forwarded \<lparr>has_token = True, body = Str ?short\<rparr> = Inr ?short" by auto
  from 1 2 show ?thesis by (intro conjI)
qed


section \<open>Properties of the frame energy\<close>

lemma rms_loop_sum:
  "rms_loop buf s = s + (\<Sum>b\<leftarrow>buf. ((real_of_int (uint b) - 128) / 128)\<^sup>2)"
  by (induction buf arbitrary: s) (simp_all add: Let_def power2_eq_square)

lemma centred_sq_le1:
  fixes x :: real
  assumes "0 \<le> x" and "x < 256"
  shows "((x - 128) / 128)\<^sup>2 \<le> 1"
proof -
  have "\<bar>(x - 128) / 128\<bar> \<le> 1" using assms by (simp add: abs_le_iff)
  then show ?thesis by (simp only: abs_square_le_1 [symmetric] abs_abs)
qed

lemma sample_sq_le1: "((real_of_int (uint (b::byte)) - 128) / 128)\<^sup>2 \<le> 1"
proof -
  have "0 \<le> uint b" and "uint b < 256" using uint_lt2p [of b] by simp_all
  then have "0 \<le> real_of_int (uint b)" and "real_of_int (uint b) < 256"
    by linarith+
  then show ?thesis by (rule centred_sq_le1)
qed

lemma sum_sq_le_length:
  "(\<Sum>b\<leftarrow>buf. ((real_of_int (uint (b::byte)) - 128) / 128)\<^sup>2) \<le> real (length buf)"
proof (induction buf)
  case Nil show ?case by simp
next
  case (Cons b buf)
  then show ?case using sample_sq_le1 [of b] by simp
qed

lemma sum_sq_nonneg:
  "0 \<le> (\<Sum>b\<leftarrow>buf. ((real_of_int (uint (b::byte)) - 128) / 128)\<^sup>2)"
  by (induction buf) simp_all

text \<open>
  Claim C9.  On a non-empty buffer of bytes \<open>_rms\<close> returns the square root of the
  mean of the squares of the normalised amplitudes \<open>(sample - 128) / 128\<close>, and the
  value lies between 0 and 1.
\<close>

theorem rms_is_root_mean_square:
  assumes "buf \<noteq> []"
  shows "\<exists>r. rms buf = Some r
           \<and> r = sqrt ((\<Sum>b\<leftarrow>buf. ((real_of_int (uint b) - 128) / 128)\<^sup>2) / real (length buf))
           \<and> 0 \<le> r \<and> r \<le> 1"
proof -
  let ?S = "\<Sum>b\<leftarrow>buf. ((real_of_int (uint b) - 128) / 128)\<^sup>2"
  have n: "0 < real (length buf)" using assms by simp
  have "?S / real (length buf) \<le> 1" using sum_sq_le_length [of buf] n by simp
  moreover have "0 \<le> ?S / real (length buf)" using sum_sq_nonneg [of buf] by simp
  ultimately show ?thesis using assms by (simp add: rms_def rms_loop_sum)
qed

theorem rms_is_root_mean_square_witness:
  "rms [0, 255, 128, 128] = Some (sqrt (32513 / 65536)) \<and> [0, 255, 128, 128 :: byte] \<noteq> []"
proof -
  have "[0, 255, 128, 128 :: byte] \<noteq> []" by simp
  from rms_is_root_mean_square [OF this] show ?thesis
    by (simp add: power2_eq_square)
qed


section \<open>Properties of the cache\<close>

lemma cacheSet_present:
  "k \<in> fst ` set (ttsCache s) \<Longrightarrow> cacheSet k v s = s"
  by (simp add: cacheSet_def map_has_def)

lemma map_delete_first:
  assumes "distinct (map fst ((k0, u0) # m))"
  shows "map_delete ((k0, u0) # m) k0 = m"
proof -
  have "\<forall>x\<in>set m. (case x of (k', v') \<Rightarrow> k' \<noteq> k0)" using assms by force
  then have "filter (\<lambda>(k', v'). k' \<noteq> k0) m = m" by (simp only: filter_True)
  then show ?thesis by (simp add: map_delete_def)
qed

lemma cacheSet_room:
  assumes "k \<notin> fst ` set (ttsCache s)" and "length (ttsCache s) < MAX_CACHE"
  shows "cacheSet k v s = s\<lparr>ttsCache := ttsCache s @ [(k, v)]\<rparr>"
  using assms by (simp add: cacheSet_def map_has_def map_set_def Let_def)

lemma cacheSet_full:
  assumes new: "k \<notin> fst ` set (ttsCache s)"
    and full: "length (ttsCache s) \<ge> MAX_CACHE"
    and c: "ttsCache s = (k0, u0) # m"
    and d: "distinct (map fst (ttsCache s))"
  shows "cacheSet k v s =
           s\<lparr>ttsCache := m @ [(k, v)],
             revoked := revoked s @ filter (\<lambda>u. startsWith u ''blob:'') [u0]\<rparr>"
proof -
  have k: "k \<noteq> k0" using new c by auto
  have dd: "distinct (map fst ((k0, u0) # m @ [(k, v)]))" using new c d by auto
  have del: "map_delete ((k0, u0) # m @ [(k, v)]) k0 = m @ [(k, v)]"
    by (rule map_delete_first [OF dd])
  have set: "map_set (ttsCache s) k v = (k0, u0) # m @ [(k, v)]"
    using new c by (simp add: map_set_def map_has_def)
  have len: "length ((k0, u0) # m @ [(k, v)]) > MAX_CACHE" using full c by simp
  have has: "\<not> map_has (ttsCache s) k" using new by (simp add: map_has_def)
  show ?thesis
    unfolding cacheSet_def Let_def set
    using has len del by (simp add: map_first_key_def map_get_def)
qed

lemma cacheSet_inv: "cache_inv s \<Longrightarrow> cache_inv (cacheSet k v s)"
proof -
  assume inv: "cache_inv s"
  show ?thesis
  proof (cases "k \<in> fst ` set (ttsCache s)")
    case True
    then show ?thesis using inv by (simp add: cacheSet_present)
  next
    case new: False
    show ?thesis
    proof (cases "length (ttsCache s) < MAX_CACHE")
      case True
      then show ?thesis using inv new by (simp add: cacheSet_room cache_inv_def)
    next
      case False
      then have full: "length (ttsCache s) \<ge> MAX_CACHE" by simp
      then obtain k0 u0 m where c: "ttsCache s = (k0, u0) # m"
        by (cases "ttsCache s") (auto simp: MAX_CACHE_def)
      have d: "distinct (map fst (ttsCache s))" using inv by (simp add: cache_inv_def)
      show ?thesis
        using inv new c by (simp add: cacheSet_full [OF new full c d] cache_inv_def)
    qed
  qed
qed

lemma cacheSet_all_inv: "cache_inv s \<Longrightarrow> cache_inv (cacheSet_all kvs s)"
  by (induction kvs s rule: cacheSet_all.induct) (simp_all add: cacheSet_inv)

lemma cacheSet_all_distinct:
  assumes "distinct (map fst (c @ kvs))" and "length c \<le> MAX_CACHE"
  shows "cacheSet_all kvs \<lparr>ttsCache = c, revoked = r\<rparr> =
           \<lparr>ttsCache = drop (length (c @ kvs) - MAX_CACHE) (c @ kvs),
            revoked = r @ filter (\<lambda>u. startsWith u ''blob:'')
                          (map snd (take (length (c @ kvs) - MAX_CACHE) (c @ kvs)))\<rparr>"
  using assms
proof (induction kvs arbitrary: c r)
  case Nil
  then show ?case by simp
next
  case (Cons kv kvs)
  obtain k v where kv: "kv = (k, v)" by (cases kv)
  let ?s = "\<lparr>ttsCache = c, revoked = r\<rparr>"
  have new: "k \<notin> fst ` set (ttsCache ?s)" using Cons.prems(1) kv by auto
  show ?case
  proof (cases "length c < MAX_CACHE")
    case True
    then have "length (ttsCache ?s) < MAX_CACHE" by simp
    from cacheSet_room [OF new this]
    have step: "cacheSet k v ?s = \<lparr>ttsCache = c @ [(k, v)], revoked = r\<rparr>" by simp
    have "distinct (map fst ((c @ [(k, v)]) @ kvs))" using Cons.prems(1) kv by simp
    moreover have "length (c @ [(k, v)]) \<le> MAX_CACHE" using True by simp
    ultimately show ?thesis using Cons.IH [of "c @ [(k, v)]" r] step kv by simp
  next
    case False
    with Cons.prems(2) have len: "length c = MAX_CACHE" by simp
    then obtain k0 u0 m where c: "c = (k0, u0) # m"
      by (cases c) (auto simp: MAX_CACHE_def)
    let ?r = "r @ filter (\<lambda>u. startsWith u ''blob:'') [u0]"
    have "MAX_CACHE \<le> length (ttsCache ?s)" using len by simp
    moreover have "ttsCache ?s = (k0, u0) # m" using c by simp
    moreover have "distinct (map fst (ttsCache ?s))" using Cons.prems(1) by simp
    ultimately have step: "cacheSet k v ?s = \<lparr>ttsCache = m @ [(k, v)], revoked = ?r\<rparr>"
      using cacheSet_full [OF new, of k0 u0 m v] by simp
    have lm: "length (m @ [(k, v)]) = MAX_CACHE" using len c by simp
    have e1: "length (c @ kv # kvs) - MAX_CACHE = Suc (length kvs)" using len by simp
    have e2: "length ((m @ [(k, v)]) @ kvs) - MAX_CACHE = length kvs" using lm by simp
    have "distinct (map fst ((m @ [(k, v)]) @ kvs))" using Cons.prems(1) c kv by simp
    moreover have "length (m @ [(k, v)]) \<le> MAX_CACHE" using lm by simp
    ultimately have "cacheSet_all kvs \<lparr>ttsCache = m @ [(k, v)], revoked = ?r\<rparr> =
        \<lparr>ttsCache = drop (length kvs) ((m @ [(k, v)]) @ kvs),
         revoked = ?r @ filter (\<lambda>u. startsWith u ''blob:'')
              (map snd (take (length kvs) ((m @ [(k, v)]) @ kvs)))\<rparr>"
      using Cons.IH [of "m @ [(k, v)]" ?r] unfolding e2 by simp
    then show ?thesis unfolding e1 by (simp add: step [unfolded c] c kv)
  qed
qed

text \<open>
  Claim C3.  After any sequence of \<open>cacheSet\<close> calls on the empty cache there is at
  most one entry per card id and there are at most \<open>MAX_CACHE\<close> entries.  When the
  ids of the calls are distinct, the cache holds exactly the last \<open>MAX_CACHE\<close> of
  them in insertion order, and the handles of the entries before them, oldest first,
  are the ones passed to \<open>URL.revokeObjectURL\<close> (the source revokes a handle
  when it is a \<open>blob:\<close> URL, which every handle made by \<open>URL.createObjectURL\<close>
  is).
\<close>

theorem cacheSet_bounded_insertion_ordered:
  "let s = cacheSet_all calls empty_cache in
     distinct (map fst (ttsCache s)) \<and> length (ttsCache s) \<le> MAX_CACHE \<and>
     (distinct (map fst calls) \<longrightarrow>
        ttsCache s = drop (length calls - MAX_CACHE) calls \<and>
        revoked s = filter (\<lambda>u. startsWith u ''blob:'')
                      (map snd (take (length calls - MAX_CACHE) calls)))"
proof -
  have "cache_inv empty_cache" by (simp add: cache_inv_def empty_cache_def)
  then have "cache_inv (cacheSet_all calls empty_cache)" by (rule cacheSet_all_inv)
  moreover have "distinct (map fst calls) \<Longrightarrow>
      cacheSet_all calls empty_cache =
        \<lparr>ttsCache = drop (length calls - MAX_CACHE) calls,
         revoked = filter (\<lambda>u. startsWith u ''blob:'')
                     (map snd (take (length calls - MAX_CACHE) calls))\<rparr>"
    using cacheSet_all_distinct [of "[]" calls "[]"] by (simp add: empty_cache_def MAX_CACHE_def)
  ultimately show ?thesis by (simp add: Let_def cache_inv_def)
qed


theorem cacheSet_bounded_insertion_ordered_witness:
  "map fst (ttsCache (cacheSet_all thirteen empty_cache)) = [2, 3, 4, 5, 6, 7, 8, 9, 10, 11, 12, 13]
   \<and> revoked (cacheSet_all thirteen empty_cache) = [''blob:a'']"
  using cacheSet_bounded_insertion_ordered [of thirteen]
  by (simp add: Let_def thirteen_def MAX_CACHE_def startsWith_def)


section \<open>Properties of the utterance recorder\<close>

lemma run_append: "run cfg (xs @ ys) s = run cfg ys (run cfg xs s)"
  by (induction xs arbitrary: s) simp_all

lemma ticks_Cons: "ticks ((e, t) # fs) = Tick e t # ticks fs"
  by (simp add: ticks_def)

lemma run_ticks_Cons:
  "run cfg (ticks ((e, t) # fs)) s = run cfg (ticks fs) (step cfg (Tick e t) s)"
  by (simp add: ticks_def)

lemma run_ticks_snoc:
  "run cfg (ticks (fs @ [(e, t)])) s = step cfg (Tick e t) (run cfg (ticks fs) s)"
  by (simp add: ticks_def run_append del: step.simps)

lemma ticks_Nil: "ticks [] = []"
  by (simp add: ticks_def)

lemma ticks_append: "ticks (xs @ ys) = ticks xs @ ticks ys"
  by (simp add: ticks_def)

subsection \<open>Single ticks\<close>

lemma tick_recording_loud:
  assumes "running s" "has_analyser s" "recording s"
    and "e > rmsThreshold cfg" "0 < endFrames cfg" "t - startedAt s \<le> maxUtteranceMs cfg"
  shows "tick cfg e t s = s\<lparr>silenceFrames := 0\<rparr>"
  using assms by (simp add: tick_def Let_def)

lemma tick_recording_quiet:
  assumes "running s" "has_analyser s" "recording s"
    and "e \<le> rmsThreshold cfg" "int (silenceFrames s) + 1 < endFrames cfg"
    and "t - startedAt s \<le> maxUtteranceMs cfg"
  shows "tick cfg e t s = s\<lparr>silenceFrames := silenceFrames s + 1\<rparr>"
  using assms by (simp add: tick_def Let_def)

lemma tick_idle_no_start:
  assumes "running s" "has_analyser s" "\<not> recording s"
    and "int (if e > rmsThreshold cfg then speakingFrames s + 1 else 0) < startFrames cfg"
    and "t - startedAt s \<le> maxUtteranceMs cfg"
  shows "tick cfg e t s = s\<lparr>speakingFrames := (if e > rmsThreshold cfg then speakingFrames s + 1 else 0)\<rparr>"
  using assms by (simp add: tick_def Let_def)

lemma tick_idle_start:
  assumes "running s" "has_analyser s" "\<not> recording s"
    and "e > rmsThreshold cfg" "int (speakingFrames s) + 1 \<ge> startFrames cfg"
    and "t - startedAt s \<le> maxUtteranceMs cfg"
  shows "tick cfg e t s =
           notify OnStartRecording
             ((rec_call (RecStart 250) (s\<lparr>speakingFrames := speakingFrames s + 1\<rparr>))
                \<lparr>recording := True, silenceFrames := 0\<rparr>)"
  using assms by (simp add: tick_def Let_def)

subsection \<open>Runs of ticks\<close>

lemma loud_while_recording:
  assumes "phase s = Polling" "running s" "has_analyser s" "recording s"
    and "\<forall>(e, t)\<in>set fs. e > rmsThreshold cfg \<and> t - startedAt s \<le> maxUtteranceMs cfg"
    and "0 < endFrames cfg"
  shows "run cfg (ticks fs) s = (if fs = [] then s else s\<lparr>silenceFrames := 0\<rparr>)"
  using assms
proof (induction fs arbitrary: s)
  case Nil
  then show ?case by (simp add: ticks_Nil)
next
  case (Cons f fs)
  obtain e t where f: "f = (e, t)" by (cases f)
  have e: "e > rmsThreshold cfg" and t: "t - startedAt s \<le> maxUtteranceMs cfg"
    using Cons.prems(5) f by auto
  have st: "step cfg (Tick e t) s = s\<lparr>silenceFrames := 0\<rparr>"
    using Cons.prems tick_recording_loud [OF Cons.prems(2,3,4) e Cons.prems(6) t] by simp
  let ?s = "s\<lparr>silenceFrames := 0\<rparr>"
  have "run cfg (ticks fs) ?s = (if fs = [] then ?s else ?s\<lparr>silenceFrames := 0\<rparr>)"
    using Cons.prems by (intro Cons.IH) auto
  then show ?case unfolding f run_ticks_Cons st by simp
qed

lemma quiet_while_recording:
  assumes "phase s = Polling" "running s" "has_analyser s" "recording s"
    and "\<forall>(e, t)\<in>set fs. e \<le> rmsThreshold cfg \<and> t - startedAt s \<le> maxUtteranceMs cfg"
    and "int (silenceFrames s + length fs) < endFrames cfg"
  shows "run cfg (ticks fs) s = s\<lparr>silenceFrames := silenceFrames s + length fs\<rparr>"
  using assms
proof (induction fs arbitrary: s)
  case Nil
  then show ?case by (simp add: ticks_Nil)
next
  case (Cons f fs)
  obtain e t where f: "f = (e, t)" by (cases f)
  have e: "e \<le> rmsThreshold cfg" and t: "t - startedAt s \<le> maxUtteranceMs cfg"
    using Cons.prems(5) f by auto
  have k: "int (silenceFrames s) + 1 < endFrames cfg" using Cons.prems(6) by simp
  let ?s = "s\<lparr>silenceFrames := silenceFrames s + 1\<rparr>"
  have st: "step cfg (Tick e t) s = ?s"
    using Cons.prems(1) tick_recording_quiet [OF Cons.prems(2,3,4) e k t] by simp
  have "run cfg (ticks fs) ?s = ?s\<lparr>silenceFrames := silenceFrames ?s + length fs\<rparr>"
    using Cons.prems by (intro Cons.IH) auto
  then show ?case unfolding f run_ticks_Cons st by simp
qed

lemma loud_while_idle:
  assumes "phase s = Polling" "running s" "has_analyser s" "\<not> recording s"
    and "\<forall>(e, t)\<in>set fs. e > rmsThreshold cfg \<and> t - startedAt s \<le> maxUtteranceMs cfg"
    and "int (speakingFrames s + length fs) \<ge> startFrames cfg" and "fs \<noteq> []"
    and "0 < endFrames cfg"
  shows "capturing s (run cfg (ticks fs) s) \<and> silenceFrames (run cfg (ticks fs) s) = 0"
  using assms
proof (induction fs arbitrary: s)
  case Nil
  then show ?case by simp
next
  case (Cons f fs)
  obtain e t where f: "f = (e, t)" by (cases f)
  have e: "e > rmsThreshold cfg" and t: "t - startedAt s \<le> maxUtteranceMs cfg"
    using Cons.prems(5) f by auto
  have rest: "\<forall>(e, t)\<in>set fs. e > rmsThreshold cfg \<and> t - startedAt s \<le> maxUtteranceMs cfg"
    using Cons.prems(5) by simp
  show ?case
  proof (cases "int (speakingFrames s) + 1 \<ge> startFrames cfg")
    case True
    let ?s = "notify OnStartRecording
             ((rec_call (RecStart 250) (s\<lparr>speakingFrames := speakingFrames s + 1\<rparr>))
                \<lparr>recording := True, silenceFrames := 0\<rparr>)"
    have st: "step cfg (Tick e t) s = ?s"
      using Cons.prems(1) tick_idle_start [OF Cons.prems(2,3,4) e True t] by simp
    have p: "phase ?s = Polling" "running ?s" "has_analyser ?s" "recording ?s"
      "startedAt ?s = startedAt s" "silenceFrames ?s = 0" "chunks ?s = chunks s"
      using Cons.prems(1,2,3) by (simp_all add: notify_def rec_call_def)
    have ef: "\<exists>pre. effects ?s = effects s @ pre \<and> set pre \<subseteq> {RecStart 250, OnStartRecording}"
    proof (cases "has_rec s")
      case True
      then have "effects ?s = effects s @ [RecStart 250, OnStartRecording]"
        by (simp add: notify_def rec_call_def)
      then show ?thesis by (intro exI [of _ "[RecStart 250, OnStartRecording]"]) simp
    next
      case False
      then have "effects ?s = effects s @ [OnStartRecording]"
        by (simp add: notify_def rec_call_def)
      then show ?thesis by (intro exI [of _ "[OnStartRecording]"]) simp
    qed
    have "run cfg (ticks fs) ?s = (if fs = [] then ?s else ?s\<lparr>silenceFrames := 0\<rparr>)"
      using rest p Cons.prems(8) by (intro loud_while_recording) auto
    then show ?thesis unfolding f run_ticks_Cons st using p ef
      by (simp add: capturing_def del: One_nat_def)
  next
    case False
    then have lt: "int (if e > rmsThreshold cfg then speakingFrames s + 1 else 0) < startFrames cfg"
      using e by simp
    let ?s = "s\<lparr>speakingFrames := speakingFrames s + 1\<rparr>"
    have st: "step cfg (Tick e t) s = ?s"
      using Cons.prems(1) e tick_idle_no_start [OF Cons.prems(2,3,4) lt t] by simp
    have ne: "fs \<noteq> []" using False Cons.prems(6) by auto
    have "capturing ?s (run cfg (ticks fs) ?s) \<and> silenceFrames (run cfg (ticks fs) ?s) = 0"
      using Cons.prems(1,2,3,4,6,8) rest ne by (intro Cons.IH) auto
    then show ?thesis unfolding f run_ticks_Cons st by (simp add: capturing_def)
  qed
qed

lemma loud_run_starts_or_keeps_recording:
  assumes "phase s = Polling" "running s" "has_analyser s"
    and "\<forall>(e, t)\<in>set fs. e > rmsThreshold cfg \<and> t - startedAt s \<le> maxUtteranceMs cfg"
    and "int (length fs) \<ge> startFrames cfg" and "fs \<noteq> []"
    and "0 < endFrames cfg"
  shows "capturing s (run cfg (ticks fs) s) \<and> silenceFrames (run cfg (ticks fs) s) = 0"
proof (cases "recording s")
  case True
  have "run cfg (ticks fs) s = s\<lparr>silenceFrames := 0\<rparr>"
    using loud_while_recording [OF assms(1,2,3) True assms(4,7)] assms(6) by simp
  then show ?thesis using assms(1,2,3) True by (simp add: capturing_def)
next
  case False
  have "int (speakingFrames s + length fs) \<ge> startFrames cfg" using assms(5) by simp
  from loud_while_idle [OF assms(1,2,3) False assms(4) this assms(6,7)] show ?thesis .
qed

text \<open>
  Claim C4.  Take a pending capture in any state, then \<open>startFrames\<close> consecutive
  readings above \<open>rmsThreshold\<close> followed by fewer than \<open>endFrames\<close> readings
  at or below it, the elapsed time at every one of these ticks not above
  \<open>maxUtteranceMs\<close>.  Afterwards the capture is recording and still polling: it has
  counted the silent readings, has neither asked the recorder for data nor stopped it,
  and has armed no timer.
\<close>

theorem recording_persists_through_short_silence:
  assumes pending: "phase s = Polling" "running s" "has_analyser s"
    and loud: "loud \<noteq> []" "int (length loud) = startFrames cfg"
              "\<forall>(e, t)\<in>set loud. e > rmsThreshold cfg"
    and quiet: "int (length quiet) < endFrames cfg"
               "\<forall>(e, t)\<in>set quiet. e \<le> rmsThreshold cfg"
    and time: "\<forall>(e, t)\<in>set (loud @ quiet). t - startedAt s \<le> maxUtteranceMs cfg"
  shows "phase (run cfg (ticks (loud @ quiet)) s) = Polling
         \<and> recording (run cfg (ticks (loud @ quiet)) s)
         \<and> silenceFrames (run cfg (ticks (loud @ quiet)) s) = length quiet
         \<and> chunks (run cfg (ticks (loud @ quiet)) s) = chunks s
         \<and> (\<exists>pre. effects (run cfg (ticks (loud @ quiet)) s) = effects s @ pre
                  \<and> set pre \<subseteq> {RecStart 250, OnStartRecording})"
proof -
  let ?mid = "run cfg (ticks loud) s"
  have ef: "0 < endFrames cfg" using quiet(1) by simp
  have l: "\<forall>(e, t)\<in>set loud. e > rmsThreshold cfg \<and> t - startedAt s \<le> maxUtteranceMs cfg"
    using loud(3) time by auto
  have "int (length loud) \<ge> startFrames cfg" using loud(2) by simp
  from loud_run_starts_or_keeps_recording [OF pending l this loud(1) ef]
  have c: "capturing s ?mid" and z: "silenceFrames ?mid = 0" by simp_all
  have q: "\<forall>(e, t)\<in>set quiet. e \<le> rmsThreshold cfg \<and> t - startedAt ?mid \<le> maxUtteranceMs cfg"
    using quiet(2) time c by (auto simp: capturing_def)
  have "int (silenceFrames ?mid + length quiet) < endFrames cfg" using z quiet(1) by simp
  with c q have "run cfg (ticks quiet) ?mid = ?mid\<lparr>silenceFrames := silenceFrames ?mid + length quiet\<rparr>"
    by (intro quiet_while_recording) (simp_all add: capturing_def)
  then have "run cfg (ticks (loud @ quiet)) s = ?mid\<lparr>silenceFrames := length quiet\<rparr>"
    by (simp add: ticks_append run_append z)
  then show ?thesis using c by (simp add: capturing_def)
qed

subsection \<open>No speech\<close>

lemma loud_suffix_snoc:
  "loud_suffix thr (es @ [e]) = (if e > thr then loud_suffix thr es + 1 else 0)"
  by (simp add: loud_suffix_def)

lemma loud_suffix_le: "loud_suffix thr es \<le> length es"
  unfolding loud_suffix_def using length_takeWhile_le [of _ "rev es"] by simp

lemma loud_suffix_nth:
  assumes "k < loud_suffix thr es"
  shows "es ! (length es - Suc k) > thr"
proof -
  let ?tw = "takeWhile (\<lambda>e. e > thr) (rev es)"
  have k: "k < length ?tw" using assms by (simp add: loud_suffix_def)
  then have "?tw ! k \<in> set ?tw" by (rule nth_mem)
  then have "?tw ! k > thr" by (auto dest: set_takeWhileD)
  moreover have "?tw ! k = rev es ! k" using k by (rule takeWhile_nth)
  moreover have "k < length es" using assms loud_suffix_le [of thr es] by simp
  ultimately show ?thesis by (simp add: rev_nth)
qed

lemma no_run_loud_suffix:
  assumes "\<not> has_loud_run n thr es"
  shows "loud_suffix thr es < n \<or> n = 0"
proof (rule ccontr)
  assume "\<not> (loud_suffix thr es < n \<or> n = 0)"
  then have n: "n \<le> loud_suffix thr es" and "0 < n" by simp_all
  have le: "n \<le> length es" using n loud_suffix_le [of thr es] by simp
  have "\<forall>j<n. es ! ((length es - n) + j) > thr"
  proof (intro allI impI)
    fix j assume j: "j < n"
    then have "n - Suc j < loud_suffix thr es" using n by simp
    from loud_suffix_nth [OF this]
    have "es ! (length es - Suc (n - Suc j)) > thr" .
    moreover have "length es - Suc (n - Suc j) = (length es - n) + j" using j le by simp
    ultimately show "es ! ((length es - n) + j) > thr" by simp
  qed
  moreover have "(length es - n) + n \<le> length es" using le by simp
  ultimately have "has_loud_run n thr es"
    unfolding has_loud_run_def by (intro exI [of _ "length es - n"]) simp
  with assms show False by simp
qed

lemma no_run_prefix:
  assumes "\<not> has_loud_run n thr (es @ es')"
  shows "\<not> has_loud_run n thr es"
proof
  assume "has_loud_run n thr es"
  then obtain i where i: "i + n \<le> length es" "\<forall>j<n. es ! (i + j) > thr"
    by (auto simp: has_loud_run_def)
  then have "\<forall>j<n. (es @ es') ! (i + j) > thr" by (simp add: nth_append)
  with i(1) have "has_loud_run n thr (es @ es')"
    unfolding has_loud_run_def by (intro exI [of _ i]) simp
  with assms show False by simp
qed

lemma idle_while_no_run:
  assumes "phase s = Polling" "running s" "has_analyser s" "\<not> recording s"
    and "speakingFrames s = 0" and "0 < startFrames cfg"
    and "\<not> has_loud_run (nat (startFrames cfg)) (rmsThreshold cfg) (map fst fs)"
    and "\<forall>(e, t)\<in>set fs. t - startedAt s \<le> maxUtteranceMs cfg"
  shows "run cfg (ticks fs) s = s\<lparr>speakingFrames := loud_suffix (rmsThreshold cfg) (map fst fs)\<rparr>"
  using assms(7,8)
proof (induction fs rule: rev_induct)
  case Nil
  then show ?case using assms(5) by (simp add: ticks_Nil loud_suffix_def)
next
  case (snoc f fs)
  obtain e t where f: "f = (e, t)" by (cases f)
  let ?thr = "rmsThreshold cfg"
  let ?k = "loud_suffix ?thr (map fst fs)"
  let ?s = "s\<lparr>speakingFrames := ?k\<rparr>"
  have "\<not> has_loud_run (nat (startFrames cfg)) ?thr (map fst fs)"
    using snoc.prems(1) no_run_prefix [of _ _ "map fst fs" "[e]"] by (simp add: f)
  then have pre: "run cfg (ticks fs) s = ?s" using snoc.prems(2) by (intro snoc.IH) auto
  have "loud_suffix ?thr (map fst (fs @ [f])) < nat (startFrames cfg)"
    using no_run_loud_suffix [OF snoc.prems(1)] assms(6) by simp
  then have lt: "int (if e > ?thr then speakingFrames ?s + 1 else 0) < startFrames cfg"
    by (simp add: f loud_suffix_snoc split: if_splits)
  have t: "t - startedAt ?s \<le> maxUtteranceMs cfg" using snoc.prems(2) f by simp
  have "tick cfg e t ?s = ?s\<lparr>speakingFrames := (if e > ?thr then speakingFrames ?s + 1 else 0)\<rparr>"
    using assms(1-4) by (intro tick_idle_no_start [OF _ _ _ lt t]) simp_all
  then have "step cfg (Tick e t) ?s = s\<lparr>speakingFrames := loud_suffix ?thr (map fst (fs @ [f]))\<rparr>"
    using assms(1) by (simp add: f loud_suffix_snoc)
  then show ?case unfolding f run_ticks_snoc pre .
qed

lemma recordOneUtterance_started:
  assumes "running inst" "has_analyser inst" "has_rec inst"
  shows "recordOneUtterance t0 inst =
           inst\<lparr>speakingFrames := 0, silenceFrames := 0, recording := False, chunks := [],
                startedAt := t0, phase := Polling\<rparr>"
  using assms by (simp add: recordOneUtterance_def)

text \<open>
  Claim C6, as the code has it.  When the readings contain no run of \<open>startFrames\<close>
  consecutive values above \<open>rmsThreshold\<close>, the promise stays pending for as long as
  no tick has seen more than \<open>maxUtteranceMs\<close> elapsed.  The first tick that does
  arms the 150 ms timer, and the timer resolves the promise with \<open>null\<close>.
\<close>

theorem silent_capture_resolves_empty_only_after_max:
  assumes inst: "running inst" "has_analyser inst" "has_rec inst"
    and sf: "0 < startFrames cfg"
    and quiet: "\<not> has_loud_run (nat (startFrames cfg)) (rmsThreshold cfg) (map fst (fs @ [(e1, t1)]))"
    and before: "\<forall>(e, t)\<in>set fs. t - t0 \<le> maxUtteranceMs cfg"
    and after: "t1 - t0 > maxUtteranceMs cfg"
  shows "phase (run cfg (ticks fs) (recordOneUtterance t0 inst)) = Polling
       \<and> phase (run cfg (ticks (fs @ [(e1, t1)])) (recordOneUtterance t0 inst)) = Flushing
       \<and> phase (run cfg (ticks (fs @ [(e1, t1)]) @ [Timeout]) (recordOneUtterance t0 inst))
           = Resolved None"
proof -
  let ?thr = "rmsThreshold cfg"
  let ?init = "recordOneUtterance t0 inst"
  note s0 = recordOneUtterance_started [OF inst, of t0]
  have p: "phase ?init = Polling" "running ?init" "has_analyser ?init" "\<not> recording ?init"
    "speakingFrames ?init = 0" "startedAt ?init = t0" "has_rec ?init" "chunks ?init = []"
    using inst by (simp_all add: s0)
  have nr: "\<not> has_loud_run (nat (startFrames cfg)) ?thr (map fst fs)"
    using quiet no_run_prefix [of _ _ "map fst fs" "[e1]"] by simp
  have b: "\<forall>(e, t)\<in>set fs. t - startedAt ?init \<le> maxUtteranceMs cfg" using before p(6) by simp
  let ?s = "?init\<lparr>speakingFrames := loud_suffix ?thr (map fst fs)\<rparr>"
  have pre: "run cfg (ticks fs) ?init = ?s"
    by (rule idle_while_no_run [OF p(1-5) sf nr b])
  have "loud_suffix ?thr (map fst (fs @ [(e1, t1)])) < nat (startFrames cfg)"
    using no_run_loud_suffix [OF quiet] sf by simp
  then have lt: "\<not> int (if e1 > ?thr then speakingFrames ?s + 1 else 0) \<ge> startFrames cfg"
    by (simp add: loud_suffix_snoc split: if_splits)
  have a: "t1 - startedAt ?s > maxUtteranceMs cfg" using after p(6) by simp
  have tk: "tick cfg e1 t1 ?s =
      force_stop (?s\<lparr>speakingFrames := (if e1 > ?thr then speakingFrames ?s + 1 else 0)\<rparr>)"
    unfolding tick_def Let_def using p(2,3,4) lt a by simp
  have st: "step cfg (Tick e1 t1) ?s =
      force_stop (?s\<lparr>speakingFrames := (if e1 > ?thr then speakingFrames ?s + 1 else 0)\<rparr>)"
    using p(1) tk by simp
  have r2: "run cfg (ticks (fs @ [(e1, t1)])) ?init = step cfg (Tick e1 t1) ?s"
    by (simp only: run_ticks_snoc pre)
  have f: "phase (step cfg (Tick e1 t1) ?s) = Flushing"
    "has_rec (step cfg (Tick e1 t1) ?s)" "chunks (step cfg (Tick e1 t1) ?s) = []"
    unfolding st using p(7,8) by (simp_all add: force_stop_def rec_call_def)
  have "run cfg (ticks (fs @ [(e1, t1)]) @ [Timeout]) ?init
          = step cfg Timeout (step cfg (Tick e1 t1) ?s)"
    by (simp only: run_append r2 run.simps)
  then have "phase (run cfg (ticks (fs @ [(e1, t1)]) @ [Timeout]) ?init) = Resolved None"
    using f by (simp add: finalize_def notify_def)
  moreover have "phase (run cfg (ticks fs) ?init) = Polling" using pre p(1) by simp
  ultimately show ?thesis using r2 f(1) by simp
qed

lemmas recorder_eval = ticks_def tick_def destructure_def app_opts_def recordOneUtterance_def
  started_def constructed_def Let_def force_stop_def rec_call_def notify_def finalize_def
  ondataavailable_def stop_called_def stop_resumed_def math_round_def

theorem recording_persists_through_short_silence_witness:
  "phase (run (destructure app_opts)
            (ticks ([(0.05, 16), (0.06, 33), (0.07, 50), (0.08, 66)] @ [(0, 83), (0, 100), (0, 116)]))
            (recordOneUtterance 0 started)) = Polling
   \<and> recording (run (destructure app_opts)
            (ticks ([(0.05, 16), (0.06, 33), (0.07, 50), (0.08, 66)] @ [(0, 83), (0, 100), (0, 116)]))
            (recordOneUtterance 0 started))"
proof -
  let ?cfg = "destructure app_opts"
  let ?init = "recordOneUtterance 0 started"
  let ?loud = "[(0.05, 16), (0.06, 33), (0.07, 50), (0.08, 66)] :: (real \<times> real) list"
  let ?quiet = "[(0, 83), (0, 100), (0, 116)] :: (real \<times> real) list"
  have 1: "phase ?init = Polling" "running ?init" "has_analyser ?init"
    by (simp_all add: recorder_eval)
  have 2: "?loud \<noteq> []" "int (length ?loud) = startFrames ?cfg"
    "\<forall>(e, t)\<in>set ?loud. e > rmsThreshold ?cfg"
    by (simp_all add: recorder_eval)
  have 3: "int (length ?quiet) < endFrames ?cfg"
    "\<forall>(e, t)\<in>set ?quiet. e \<le> rmsThreshold ?cfg"
    by (simp_all add: recorder_eval)
  have 4: "\<forall>(e, t)\<in>set (?loud @ ?quiet). t - startedAt ?init \<le> maxUtteranceMs ?cfg"
    by (simp add: recorder_eval)
  from recording_persists_through_short_silence [OF 1 2 3 4] show ?thesis by simp
qed

lemma no_loud_run_example: "\<not> has_loud_run 4 0.02 [0, 0.5, 0, 0, 0]"
proof
  assume "has_loud_run 4 0.02 [0, 0.5, 0, 0, 0]"
  then obtain i :: nat where i: "i + 4 \<le> 5"
    and l: "\<forall>j<4. [0, 0.5, 0, 0, 0 :: real] ! (i + j) > 0.02"
    by (auto simp: has_loud_run_def)
  have "(2::nat) < 4" by simp
  with l have "[0, 0.5, 0, 0, 0 :: real] ! (i + 2) > 0.02" by blast
  moreover from i have "i = 0 \<or> i = 1" by auto
  ultimately show False by auto
qed

theorem silent_capture_resolves_empty_only_after_max_witness:
  "phase (run (destructure app_opts) (ticks [(0, 16), (0.5, 33), (0, 30000), (0, 60000)])
            (recordOneUtterance 0 started)) = Polling
   \<and> phase (run (destructure app_opts)
              (ticks ([(0, 16), (0.5, 33), (0, 30000), (0, 60000)] @ [(0, 60001)]) @ [Timeout])
              (recordOneUtterance 0 started)) = Resolved None"
proof -
  let ?cfg = "destructure app_opts"
  let ?fs = "[(0, 16), (0.5, 33), (0, 30000), (0, 60000)] :: (real \<times> real) list"
  have 1: "running started" "has_analyser started" "has_rec started"
    by (simp_all add: started_def constructed_def)
  have 2: "0 < startFrames ?cfg" by (simp add: recorder_eval)
  have 3: "\<not> has_loud_run (nat (startFrames ?cfg)) (rmsThreshold ?cfg) (map fst (?fs @ [(0, 60001)]))"
    using no_loud_run_example by (simp add: recorder_eval)
  have 4: "\<forall>(e, t)\<in>set ?fs. t - 0 \<le> maxUtteranceMs ?cfg" by (simp add: recorder_eval)
  have 5: "60001 - 0 > maxUtteranceMs ?cfg" by (simp add: recorder_eval)
  from silent_capture_resolves_empty_only_after_max [OF 1 2 3 4 5] show ?thesis by simp
qed

text \<open>
  Claim C6 as stated asks for the empty result before \<open>maxUtteranceMs\<close> has
  elapsed.  With the options of App.tsx and silence throughout, the promise is still
  pending at the tick 60000 ms after the call; the tick after it arms the timer.
\<close>

theorem silent_capture_still_pending_at_max:
  "\<not> has_loud_run 4 0.02 [0, 0, 0]
   \<and> maxUtteranceMs (destructure app_opts) = 60000
   \<and> phase (run (destructure app_opts) (ticks [(0, 16), (0, 30000), (0, 60000)])
              (recordOneUtterance 0 started)) = Polling
   \<and> phase (run (destructure app_opts) (ticks [(0, 16), (0, 30000), (0, 60000), (0, 60016)])
              (recordOneUtterance 0 started)) = Flushing
   \<and> phase (run (destructure app_opts)
              (ticks [(0, 16), (0, 30000), (0, 60000), (0, 60016)] @ [Timeout])
              (recordOneUtterance 0 started)) = Resolved None"
proof -
  have "\<not> has_loud_run 4 0.02 [0, 0, 0]" by (simp add: has_loud_run_def)
  then show ?thesis by (simp add: recorder_eval)
qed

subsection \<open>Stopping\<close>

lemma run_data:
  "run cfg (map Data ds) s = s\<lparr>chunks := chunks s @ filter (\<lambda>n. 0 < n) ds\<rparr>"
proof (induction ds arbitrary: s)
  case Nil
  show ?case by simp
next
  case (Cons d ds)
  show ?case by (simp add: Cons.IH ondataavailable_def)
qed

lemma force_stop_effects:
  assumes "has_rec s"
  shows "force_stop s = s\<lparr>effects := effects s @ [RecRequestData, RecStop], phase := Flushing\<rparr>"
  using assms by (simp add: force_stop_def rec_call_def)

lemma tick_forced_stop:
  assumes "running s" "has_analyser s" "has_rec s"
    and "(recording s \<and> int (if e \<le> rmsThreshold cfg then silenceFrames s + 1 else 0) \<ge> endFrames cfg)
         \<or> now - startedAt s > maxUtteranceMs cfg"
  shows "\<exists>s1 pre. tick cfg e now s = force_stop s1 \<and> has_rec s1 \<and> chunks s1 = chunks s
            \<and> effects s1 = effects s @ pre \<and> set pre \<subseteq> {RecStart 250, OnStartRecording}"
proof (cases "recording s")
  case True
  let ?s1 = "s\<lparr>silenceFrames := (if e \<le> rmsThreshold cfg then silenceFrames s + 1 else 0)\<rparr>"
  have "tick cfg e now s = force_stop ?s1"
    using assms True by (auto simp: tick_def Let_def)
  then show ?thesis using assms(3) by (intro exI [of _ ?s1] exI [of _ "[]"]) simp
next
  case False
  with assms(4) have late: "now - startedAt s > maxUtteranceMs cfg" by simp
  let ?sp = "if e > rmsThreshold cfg then speakingFrames s + 1 else 0"
  show ?thesis
  proof (cases "int ?sp \<ge> startFrames cfg")
    case True
    let ?s1 = "notify OnStartRecording
                 ((rec_call (RecStart 250) (s\<lparr>speakingFrames := ?sp\<rparr>))
                    \<lparr>recording := True, silenceFrames := 0\<rparr>)"
    have "tick cfg e now s = force_stop ?s1"
      using assms(1,2) False late True unfolding tick_def Let_def by simp
    moreover have "effects ?s1 = effects s @ [RecStart 250, OnStartRecording]"
      using assms(3) by (simp add: notify_def rec_call_def)
    moreover have "has_rec ?s1" "chunks ?s1 = chunks s"
      using assms(3) by (simp_all add: notify_def rec_call_def)
    ultimately show ?thesis
      by (intro exI [of _ ?s1] exI [of _ "[RecStart 250, OnStartRecording]"]) simp
  next
    case nostart: False
    let ?s1 = "s\<lparr>speakingFrames := ?sp\<rparr>"
    have "tick cfg e now s = force_stop ?s1"
      using assms(1,2) False late nostart unfolding tick_def Let_def by simp
    then show ?thesis using assms(3) by (intro exI [of _ ?s1] exI [of _ "[]"]) simp
  qed
qed

text \<open>
  Claim C5.  A tick that stops a capture, by \<open>endFrames\<close> readings at or below the
  threshold or by more than \<open>maxUtteranceMs\<close> elapsed, calls \<open>requestData()\<close> and
  then \<open>stop()\<close> on the recorder and arms the timer.  The blob is built only when the
  timer fires, from every chunk delivered until then, those delivered after the stop
  included, so its size is at least the size at every earlier chunk boundary.
\<close>

theorem forced_stop_flushes_then_stops_then_finalizes:
  assumes "phase s = Polling" "running s" "has_analyser s" "has_rec s"
    and "(recording s \<and> int (if e \<le> rmsThreshold cfg then silenceFrames s + 1 else 0) \<ge> endFrames cfg)
         \<or> now - startedAt s > maxUtteranceMs cfg"
  shows "phase (step cfg (Tick e now) s) = Flushing
       \<and> (\<exists>pre. effects (step cfg (Tick e now) s) = effects s @ pre @ [RecRequestData, RecStop]
                 \<and> set pre \<subseteq> {RecStart 250, OnStartRecording})
       \<and> effects (run cfg (Tick e now # map Data ds @ [Timeout]) s)
           = effects (step cfg (Tick e now) s) @ [OnStopRecording]
       \<and> chunks (run cfg (Tick e now # map Data ds @ [Timeout]) s)
           = chunks s @ filter (\<lambda>n. 0 < n) ds
       \<and> phase (run cfg (Tick e now # map Data ds @ [Timeout]) s)
           = Resolved (if chunks s @ filter (\<lambda>n. 0 < n) ds = [] then None
                       else Some (chunks s @ filter (\<lambda>n. 0 < n) ds))
       \<and> (\<forall>k. sum_list (take k (chunks s @ filter (\<lambda>n. 0 < n) ds))
                 \<le> sum_list (chunks s @ filter (\<lambda>n. 0 < n) ds))"
proof -
  from tick_forced_stop [OF assms(2-5)] obtain s1 pre where
    tk: "tick cfg e now s = force_stop s1" and r: "has_rec s1" and c: "chunks s1 = chunks s"
    and ef: "effects s1 = effects s @ pre" and pre: "set pre \<subseteq> {RecStart 250, OnStartRecording}"
    by blast
  let ?f = "s1\<lparr>effects := effects s1 @ [RecRequestData, RecStop], phase := Flushing\<rparr>"
  have st: "step cfg (Tick e now) s = ?f"
    using assms(1) tk force_stop_effects [OF r] by simp
  let ?d = "?f\<lparr>chunks := chunks ?f @ filter (\<lambda>n. 0 < n) ds\<rparr>"
  have "run cfg (Tick e now # map Data ds @ [Timeout]) s
          = step cfg Timeout (run cfg (map Data ds) (step cfg (Tick e now) s))"
    by (simp only: run.simps run_append)
  also have "\<dots> = step cfg Timeout ?d" by (simp only: st run_data)
  also have "\<dots> = finalize ?d" by simp
  finally have fin: "run cfg (Tick e now # map Data ds @ [Timeout]) s = finalize ?d" .
  have mono: "\<forall>k. sum_list (take k xs) \<le> sum_list xs" for xs :: "nat list"
  proof
    fix k
    have "sum_list xs = sum_list (take k xs) + sum_list (drop k xs)"
      by (metis append_take_drop_id sum_list_append)
    then show "sum_list (take k xs) \<le> sum_list xs" by simp
  qed
  have "phase (step cfg (Tick e now) s) = Flushing" by (simp only: st) simp
  moreover have "\<exists>pre. effects (step cfg (Tick e now) s) = effects s @ pre @ [RecRequestData, RecStop]
                 \<and> set pre \<subseteq> {RecStart 250, OnStartRecording}"
    using ef pre by (simp only: st) (intro exI [of _ pre], simp)
  moreover have "effects (finalize ?d) = effects ?f @ [OnStopRecording]"
    using r by (simp add: finalize_def notify_def)
  moreover have "chunks (finalize ?d) = chunks s @ filter (\<lambda>n. 0 < n) ds"
    using r c by (simp add: finalize_def notify_def)
  moreover have "phase (finalize ?d) = Resolved (if chunks s @ filter (\<lambda>n. 0 < n) ds = [] then None
                       else Some (chunks s @ filter (\<lambda>n. 0 < n) ds))"
    using r c by (simp add: finalize_def notify_def)
  ultimately show ?thesis unfolding fin using mono by (simp only: st) simp
qed

theorem forced_stop_flushes_then_stops_then_finalizes_witness:
  "phase (run (destructure app_opts)
           (Tick 0.5 60001 # map Data [0, 120] @ [Timeout])
           (run (destructure app_opts)
              [Tick 0.5 16, Tick 0.5 33, Tick 0.5 50, Tick 0.5 66, Data 4000]
              (recordOneUtterance 0 started)))
     = Resolved (Some [4000, 120])
   \<and> effects (run (destructure app_opts)
           (Tick 0.5 60001 # map Data [0, 120] @ [Timeout])
           (run (destructure app_opts)
              [Tick 0.5 16, Tick 0.5 33, Tick 0.5 50, Tick 0.5 66, Data 4000]
              (recordOneUtterance 0 started)))
     = [RecStart 250, OnStartRecording, RecRequestData, RecStop, OnStopRecording]"
proof -
  let ?cfg = "destructure app_opts"
  let ?s = "run ?cfg [Tick 0.5 16, Tick 0.5 33, Tick 0.5 50, Tick 0.5 66, Data 4000]
              (recordOneUtterance 0 started)"
  have s: "?s = \<lparr>running = True, has_analyser = True, has_rec = True, chunks = [4000],
     speakingFrames = 4, silenceFrames = 0, recording = True, startedAt = 0,
     effects = [RecStart 250, OnStartRecording], phase = Polling\<rparr>"
    by (simp add: recorder_eval)
  have 1: "phase ?s = Polling" "running ?s" "has_analyser ?s" "has_rec ?s"
    unfolding s by simp_all
  have 2: "(recording ?s \<and> int (if 0.5 \<le> rmsThreshold ?cfg then silenceFrames ?s + 1 else 0)
                \<ge> endFrames ?cfg)
           \<or> 60001 - startedAt ?s > maxUtteranceMs ?cfg"
    unfolding s by (simp add: recorder_eval)
  from forced_stop_flushes_then_stops_then_finalizes [OF 1 2, of "[0, 120]"]
  show ?thesis unfolding s by (simp add: recorder_eval)
qed

subsection \<open>Calls before \<open>start()\<close> and an external \<open>stop()\<close>\<close>

lemma recordOneUtterance_before_start:
  "phase (recordOneUtterance now constructed) = Resolved None"
  by (simp add: recordOneUtterance_def constructed_def)

lemma recordOneUtterance_not_ready:
  assumes "\<not> running s \<or> \<not> has_analyser s \<or> \<not> has_rec s"
  shows "phase (recordOneUtterance now s) = Resolved None"
  using assms by (auto simp: recordOneUtterance_def)

lemma run_data_stop_resumed:
  assumes "\<forall>ev\<in>set evs. ev = StopResumed \<or> (\<exists>n. ev = Data n)"
  shows "phase (run cfg evs s) = phase s \<and> running (run cfg evs s) = running s"
  using assms
proof (induction evs arbitrary: s)
  case Nil
  show ?case by simp
next
  case (Cons ev evs)
  then have "ev = StopResumed \<or> (\<exists>n. ev = Data n)" by simp
  then have "phase (step cfg ev s) = phase s \<and> running (step cfg ev s) = running s"
    by (auto simp: stop_resumed_def ondataavailable_def split: if_splits)
  moreover have "phase (run cfg evs (step cfg ev s)) = phase (step cfg ev s)
      \<and> running (run cfg evs (step cfg ev s)) = running (step cfg ev s)"
    using Cons.prems by (intro Cons.IH) simp
  ultimately show ?case by simp
qed

lemma stop_while_polling_resolves_empty:
  assumes "phase s = Polling"
    and "\<forall>ev\<in>set evs. ev = StopResumed \<or> (\<exists>n. ev = Data n)"
  shows "phase (run cfg (StopCalled # evs @ [Tick e now]) s) = Resolved None"
proof -
  let ?a = "run cfg evs (stop_called s)"
  have "phase ?a = Polling" "\<not> running ?a"
    using run_data_stop_resumed [OF assms(2), of cfg "stop_called s"] assms(1)
    by (simp_all add: stop_called_def)
  then have "phase (step cfg (Tick e now) ?a) = Resolved None"
    by (simp add: tick_def)
  moreover have "run cfg (StopCalled # evs @ [Tick e now]) s = step cfg (Tick e now) ?a"
    by (simp only: run.simps run_append step.simps)
  ultimately show ?thesis by simp
qed

lemma step_hung: "phase s = Hung \<Longrightarrow> phase (step cfg ev s) = Hung"
  by (cases ev) (simp_all add: ondataavailable_def stop_called_def stop_resumed_def)

lemma hung_forever: "phase s = Hung \<Longrightarrow> phase (run cfg evs s) = Hung"
proof (induction evs arbitrary: s)
  case Nil
  then show ?case by simp
next
  case (Cons ev evs)
  from Cons.prems have "phase (step cfg ev s) = Hung" by (rule step_hung)
  then have "phase (run cfg evs (step cfg ev s)) = Hung" by (rule Cons.IH)
  then show ?case by simp
qed

lemma stop_while_flushing_hangs:
  assumes "phase s = Flushing"
  shows "phase (run cfg (StopCalled # StopResumed # Timeout # evs) s) = Hung"
proof -
  have "phase (step cfg Timeout (step cfg StopResumed (step cfg StopCalled s))) = Hung"
    using assms by (simp add: stop_called_def stop_resumed_def finalize_def)
  then have "phase (run cfg evs (step cfg Timeout (step cfg StopResumed (step cfg StopCalled s)))) = Hung"
    by (rule hung_forever)
  then show ?thesis by (simp only: run.simps)
qed

text \<open>
  Claim C7.  A call before \<open>start()\<close> resolves with \<open>null\<close> at once
  (\<open>recordOneUtterance_before_start\<close>), and an external \<open>stop()\<close> while the loop
  polls resolves the promise with \<open>null\<close> at the next tick
  (\<open>stop_while_polling_resolves_empty\<close>).  An external \<open>stop()\<close> that completes
  while the 150 ms timer is armed clears \<open>_rec\<close>; the timer's callback then throws
  on \<open>this._rec!.mimeType\<close> before it resolves, and the promise stays pending
  whatever happens afterwards.  Here: the options of App.tsx, four loud frames, one
  chunk, the stop by maximal duration, then \<open>stop()\<close>, then the timer.
\<close>

theorem stop_in_flush_window_never_resolves:
  "phase (run (destructure app_opts)
            ([Tick 0.5 16, Tick 0.5 33, Tick 0.5 50, Tick 0.5 66, Data 4000, Tick 0.5 60001]
               @ StopCalled # StopResumed # Timeout # evs)
            (recordOneUtterance 0 started)) = Hung"
proof -
  have "phase (run (destructure app_opts)
         [Tick 0.5 16, Tick 0.5 33, Tick 0.5 50, Tick 0.5 66, Data 4000, Tick 0.5 60001]
         (recordOneUtterance 0 started)) = Flushing"
    by (simp add: recorder_eval)
  then show ?thesis unfolding run_append by (rule stop_while_flushing_hangs)
qed

theorem stop_in_flush_window_never_resolves_witness:
  "phase (run (destructure app_opts)
            ([Tick 0.5 16, Tick 0.5 33, Tick 0.5 50, Tick 0.5 66, Data 4000, Tick 0.5 60001]
               @ StopCalled # StopResumed # Timeout # [Data 10, Tick 0 60200, Timeout])
            (recordOneUtterance 0 started)) = Hung"
  by (rule stop_in_flush_window_never_resolves)


section \<open>Properties of prefetching\<close>

subsection \<open>At most one prefetch per card\<close>

lemma prefetching_append:
  "prefetching (s\<lparr>pending := pending s @ [t]\<rparr>)
     = prefetching s @ (case t of PrefetchTask c \<Rightarrow> [c] | OnDemandTask c \<Rightarrow> [])"
  by (simp add: prefetching_def)

lemma prefetching_remove1_prefetch:
  "concat (map (\<lambda>t. case t of PrefetchTask c \<Rightarrow> [c] | OnDemandTask c \<Rightarrow> [])
             (remove1 (PrefetchTask cardId) ts))
     = remove1 cardId (concat (map (\<lambda>t. case t of PrefetchTask c \<Rightarrow> [c] | OnDemandTask c \<Rightarrow> []) ts))"
proof (induction ts)
  case Nil
  show ?case by simp
next
  case (Cons t ts)
  then show ?case by (cases t) auto
qed

lemma prefetching_remove1_ondemand:
  "concat (map (\<lambda>t. case t of PrefetchTask c \<Rightarrow> [c] | OnDemandTask c \<Rightarrow> [])
             (remove1 (OnDemandTask cardId) ts))
     = concat (map (\<lambda>t. case t of PrefetchTask c \<Rightarrow> [c] | OnDemandTask c \<Rightarrow> []) ts)"
proof (induction ts)
  case Nil
  show ?case by simp
next
  case (Cons t ts)
  then show ?case by (cases t) auto
qed

lemma prefetchOneCard_end_eq:
  "prefetchOneCard_end cardId out s =
     Inr ((case out of
             Url blobUrl \<Rightarrow>
               if blobUrl \<noteq> [] then s\<lparr>cache := cacheSet cardId blobUrl (cache s)\<rparr> else s
           | _ \<Rightarrow> s)
            \<lparr>inflight := inflight s - {cardId},
             pending := remove1 (PrefetchTask cardId) (pending s)\<rparr>)"
  by (cases out)
     (simp_all add: prefetchOneCard_end_def prefetchOneCard_try_def prefetchOneCard_catch_def prefetchOneCard_finally_def)

lemma prefetchOneCard_begin_inv:
  assumes "prefetch_inv s"
  shows "prefetch_inv (fst (prefetchOneCard_begin cardId s))"
  using assms by (auto simp: prefetch_inv_def prefetchOneCard_begin_def prefetching_def)

lemma prefetchOneCard_end_inv:
  assumes "prefetch_inv s" and "prefetchOneCard_end cardId out s = Inr s'"
  shows "prefetch_inv s'"
proof -
  have p: "prefetching s' = remove1 cardId (prefetching s)"
    using assms(2) unfolding prefetchOneCard_end_eq
    by (cases out) (auto simp: prefetching_def prefetching_remove1_prefetch)
  have i: "inflight s' = inflight s - {cardId}"
    using assms(2) unfolding prefetchOneCard_end_eq by (cases out) auto
  show ?thesis using assms(1) unfolding prefetch_inv_def p i by simp
qed

lemma pstep_inv:
  assumes "prefetch_inv s"
  shows "prefetch_inv (pstep ev s)"
proof (cases ev)
  case (CallPrefetch cardId)
  then show ?thesis using assms by (simp add: prefetchOneCard_begin_inv)
next
  case (PrefetchDone cardId out)
  then show ?thesis using assms prefetchOneCard_end_inv [of s cardId out]
    by (auto split: sum.splits)
next
  case (CallSpeak cardId)
  then show ?thesis using assms
    by (auto simp: ttsSpeakCardFront_begin_def prefetch_inv_def prefetching_def split: option.splits)
next
  case (SpeakDone cardId out)
  then show ?thesis using assms
    by (cases out)
       (auto simp: ttsSpeakCardFront_end_def prefetch_inv_def prefetching_def Let_def
                   prefetching_remove1_ondemand)
qed

lemma prun_inv: "prefetch_inv s \<Longrightarrow> prefetch_inv (prun evs s)"
  by (induction evs arbitrary: s) (simp_all add: pstep_inv)

lemma prefetch_skips_covered:
  assumes "map_has (ttsCache (cache s)) cardId \<or> cardId \<in> inflight s"
  shows "pstep (CallPrefetch cardId) s = s"
  using assms by (auto simp: prefetchOneCard_begin_def)

text \<open>
  Claim C2, as the code has it.  In every interleaving of the two paths, no card has
  more than one outstanding prefetch, \<open>inflight\<close> is exactly the set of cards with
  an outstanding prefetch, and \<open>prefetchOneCard\<close> skips a card that the cache or
  \<open>inflight\<close> covers.
\<close>

theorem at_most_one_prefetch_per_card:
  "distinct (prefetching (prun evs init_client))
   \<and> inflight (prun evs init_client) = set (prefetching (prun evs init_client))
   \<and> (\<forall>cardId. map_has (ttsCache (cache (prun evs init_client))) cardId
                  \<or> cardId \<in> inflight (prun evs init_client)
        \<longrightarrow> pstep (CallPrefetch cardId) (prun evs init_client) = prun evs init_client)"
proof -
  have "prefetch_inv init_client" by (simp add: prefetch_inv_def init_client_def prefetching_def)
  then have "prefetch_inv (prun evs init_client)" by (rule prun_inv)
  then show ?thesis using prefetch_skips_covered by (simp add: prefetch_inv_def)
qed

theorem at_most_one_prefetch_per_card_witness:
  "prefetching (prun [CallPrefetch 7, CallSpeak 8, CallPrefetch 7, CallSpeak 7] init_client) = [7]
   \<and> pstep (CallPrefetch 7) (prun [CallPrefetch 7, CallSpeak 8, CallPrefetch 7, CallSpeak 7] init_client)
       = prun [CallPrefetch 7, CallSpeak 8, CallPrefetch 7, CallSpeak 7] init_client"
proof -
  let ?s = "prun [CallPrefetch 7, CallSpeak 8, CallPrefetch 7, CallSpeak 7] init_client"
  have e: "?s = \<lparr>cache = empty_cache, inflight = {7}, ttsUrl = None,
                  pending = [PrefetchTask 7, OnDemandTask 8, OnDemandTask 7]\<rparr>"
    by (simp add: init_client_def prefetchOneCard_begin_def ttsSpeakCardFront_begin_def map_has_def map_get_def
                  empty_cache_def)
  have "7 \<in> inflight ?s" unfolding e by simp
  with at_most_one_prefetch_per_card [of "[CallPrefetch 7, CallSpeak 8, CallPrefetch 7, CallSpeak 7]"]
  have "pstep (CallPrefetch 7) ?s = ?s" by blast
  moreover have "prefetching ?s = [7]" unfolding e by (simp add: prefetching_def)
  ultimately show ?thesis by simp
qed

text \<open>
  Claim C2 as stated covers the on-demand path too.  \<open>ttsSpeakCardFront\<close> consults
  the cache only: with card 7 in flight it requests a second synthesis of card 7.
\<close>

theorem on_demand_duplicates_prefetch:
  "synthesizing (prun [CallPrefetch 7, CallSpeak 7] init_client) = [7, 7]
   \<and> inflight (prun [CallPrefetch 7] init_client) = {7}
   \<and> snd (ttsSpeakCardFront_begin 7 (prun [CallPrefetch 7] init_client))"
  by (simp add: init_client_def prefetchOneCard_begin_def ttsSpeakCardFront_begin_def map_has_def map_get_def
                empty_cache_def synthesizing_def)

subsection \<open>The worker pool\<close>

lemma worker_loop_inv:
  assumes "pool_inv w"
  shows "pool_inv (worker_loop i w)"
proof (cases "queue w")
  case Nil
  then show ?thesis using assms
    by (auto simp: worker_loop_def pool_inv_def dest!: set_update_subset_insert [THEN subsetD])
next
  case (Cons cardId rest)
  then have nf: "Finished \<notin> set (workers w)" using assms by (auto simp: pool_inv_def)
  obtain c admitted where b: "prefetchOneCard_begin cardId (cl w) = (c, admitted)"
    by (cases "prefetchOneCard_begin cardId (cl w)")
  let ?x = "if admitted then Awaiting cardId else Ready"
  have "set ((workers w)[i := ?x]) \<subseteq> insert ?x (set (workers w))"
    by (rule set_update_subset_insert)
  then have "Finished \<notin> set ((workers w)[i := ?x])" "Rejected \<notin> set ((workers w)[i := ?x])"
    using nf assms by (auto simp: pool_inv_def split: if_splits)
  then show ?thesis using Cons b by (simp add: worker_loop_def pool_inv_def)
qed

lemma worker_loop_taken:
  "taken (worker_loop i w) @ queue (worker_loop i w) = taken w @ queue w"
  by (cases "queue w") (simp_all add: worker_loop_def split: prod.splits)

lemma worker_loop_length: "length (workers (worker_loop i w)) = length (workers w)"
  by (cases "queue w") (simp_all add: worker_loop_def split: prod.splits)

lemma wstep_inv:
  assumes "pool_inv w"
  shows "pool_inv (wstep ev w)"
proof (cases ev)
  case (Resume i)
  then show ?thesis using assms by (simp add: worker_loop_inv)
next
  case (Done i out)
  show ?thesis
  proof (cases "i < length (workers w)")
    case False
    then show ?thesis using assms Done by simp
  next
    case True
    show ?thesis
    proof (cases "workers w ! i")
      case (Awaiting cardId)
      have "set ((workers w)[i := Ready]) \<subseteq> insert Ready (set (workers w))"
        by (rule set_update_subset_insert)
      then have "Rejected \<notin> set ((workers w)[i := Ready])"
        "Finished \<in> set ((workers w)[i := Ready]) \<Longrightarrow> Finished \<in> set (workers w)"
        using assms by (auto simp: pool_inv_def)
      then show ?thesis using assms Done True Awaiting
        by (auto simp: prefetchOneCard_end_eq pool_inv_def)
    qed (use assms Done True in simp_all)
  qed
qed

lemma wstep_taken: "taken (wstep ev w) @ queue (wstep ev w) = taken w @ queue w"
proof (cases ev)
  case (Resume i)
  then show ?thesis by (simp add: worker_loop_taken)
next
  case (Done i out)
  then show ?thesis by (simp add: prefetchOneCard_end_eq split: worker.splits)
qed

lemma wstep_length: "length (workers (wstep ev w)) = length (workers w)"
proof (cases ev)
  case (Resume i)
  then show ?thesis by (simp add: worker_loop_length)
next
  case (Done i out)
  then show ?thesis by (simp add: prefetchOneCard_end_eq split: worker.splits)
qed

lemma wrun_inv: "pool_inv w \<Longrightarrow> pool_inv (wrun evs w)"
  by (induction evs arbitrary: w) (simp_all add: wstep_inv)

lemma wrun_taken: "taken (wrun evs w) @ queue (wrun evs w) = taken w @ queue w"
  by (induction evs arbitrary: w) (simp_all add: wstep_taken)

lemma wrun_length: "length (workers (wrun evs w)) = length (workers w)"
  by (induction evs arbitrary: w) (simp_all add: wstep_length)

lemma create_workers_step:
  assumes "i < min CONCURRENCY (length (queue w))"
    and "worker_loop i (w\<lparr>workers := workers w @ [Ready]\<rparr>) = w'"
  shows "create_workers i w = create_workers (Suc i) w'"
proof -
  have "create_workers i w =
      (if i < min CONCURRENCY (length (queue w))
       then create_workers (i + 1) (worker_loop i (w\<lparr>workers := workers w @ [Ready]\<rparr>))
       else w)"
    by (rule create_workers.simps)
  then show ?thesis using assms by auto
qed

lemma create_workers_stop:
  assumes "\<not> i < min CONCURRENCY (length (queue w))"
  shows "create_workers i w = w"
proof -
  have "create_workers i w =
      (if i < min CONCURRENCY (length (queue w))
       then create_workers (i + 1) (worker_loop i (w\<lparr>workers := workers w @ [Ready]\<rparr>))
       else w)"
    by (rule create_workers.simps)
  then show ?thesis using assms by auto
qed

lemma create_workers_inv:
  assumes "pool_inv w"
  shows "pool_inv (create_workers i w)"
  using assms
proof (induction i w rule: create_workers.induct)
  case (1 i w)
  show ?case
  proof (cases "i < min CONCURRENCY (length (queue w))")
    case True
    let ?w = "w\<lparr>workers := workers w @ [Ready]\<rparr>"
    from True have "queue w \<noteq> []" by auto
    then have "Finished \<notin> set (workers w)" using "1.prems" by (auto simp: pool_inv_def)
    then have "pool_inv ?w" using "1.prems" by (simp add: pool_inv_def)
    then have "pool_inv (worker_loop i ?w)" by (rule worker_loop_inv)
    with True have "pool_inv (create_workers (i + 1) (worker_loop i ?w))" by (rule "1.IH")
    then show ?thesis using create_workers_step [OF True refl] by simp
  next
    case False
    then show ?thesis using "1.prems" by (simp add: create_workers_stop)
  qed
qed

lemma create_workers_taken:
  "taken (create_workers i w) @ queue (create_workers i w) = taken w @ queue w"
proof (induction i w rule: create_workers.induct)
  case (1 i w)
  show ?case
  proof (cases "i < min CONCURRENCY (length (queue w))")
    case True
    let ?w = "w\<lparr>workers := workers w @ [Ready]\<rparr>"
    have "taken (create_workers (i + 1) (worker_loop i ?w))
            @ queue (create_workers (i + 1) (worker_loop i ?w))
          = taken (worker_loop i ?w) @ queue (worker_loop i ?w)"
      using True by (rule "1.IH")
    then show ?thesis using create_workers_step [OF True refl] by (simp add: worker_loop_taken)
  next
    case False
    then show ?thesis by (simp add: create_workers_stop)
  qed
qed

lemma create_workers_length:
  "length (workers w) \<le> length (workers (create_workers i w))"
proof (induction i w rule: create_workers.induct)
  case (1 i w)
  show ?case
  proof (cases "i < min CONCURRENCY (length (queue w))")
    case True
    let ?w = "w\<lparr>workers := workers w @ [Ready]\<rparr>"
    have "length (workers (worker_loop i ?w))
            \<le> length (workers (create_workers (i + 1) (worker_loop i ?w)))"
      using True by (rule "1.IH")
    then show ?thesis using create_workers_step [OF True refl] by (simp add: worker_loop_length)
  next
    case False
    then show ?thesis by (simp add: create_workers_stop)
  qed
qed

lemma warm_start_facts:
  "pool_inv (warm_start list c)"
  "taken (warm_start list c) @ queue (warm_start list c) = list"
  "workers (warm_start list c) = [] \<Longrightarrow> list = []"
proof -
  let ?w = "\<lparr>cl = c, queue = list, workers = [], taken = []\<rparr>"
  have "pool_inv ?w" by (simp add: pool_inv_def)
  then show "pool_inv (warm_start list c)"
    unfolding warm_start_def by (rule create_workers_inv)
  show "taken (warm_start list c) @ queue (warm_start list c) = list"
    unfolding warm_start_def create_workers_taken by simp
  show "list = []" if e: "workers (warm_start list c) = []"
  proof (rule ccontr)
    assume "list \<noteq> []"
    then have "0 < min CONCURRENCY (length (queue ?w))" by (simp add: CONCURRENCY_def)
    then have "warm_start list c
        = create_workers (Suc 0) (worker_loop 0 (?w\<lparr>workers := workers ?w @ [Ready]\<rparr>))"
      unfolding warm_start_def by (rule create_workers_step) (rule refl)
    moreover have "1 \<le> length (workers (create_workers (Suc 0)
        (worker_loop 0 (?w\<lparr>workers := workers ?w @ [Ready]\<rparr>))))"
      using create_workers_length [of "worker_loop 0 (?w\<lparr>workers := workers ?w @ [Ready]\<rparr>)" "Suc 0"]
      by (simp add: worker_loop_length)
    ultimately show False using e by simp
  qed
qed

lemma failed_candidate_is_skipped:
  assumes "i < length (workers w)" and "workers w ! i = Awaiting cardId"
    and "out = Failed \<or> out = NoUrl"
  shows "wstep (Done i out) w =
           w\<lparr>cl := (cl w)\<lparr>inflight := inflight (cl w) - {cardId},
                           pending := remove1 (PrefetchTask cardId) (pending (cl w))\<rparr>,
             workers := (workers w)[i := Ready]\<rparr>"
  using assms by (auto simp: prefetchOneCard_end_eq)

lemma done_leaves_inflight:
  assumes "i < length (workers w)" and "workers w ! i = Awaiting cardId"
  shows "cardId \<notin> inflight (cl (wstep (Done i out) w)) \<and> workers (wstep (Done i out) w) ! i = Ready"
  using assms by (cases out) (simp_all add: prefetchOneCard_end_eq)

lemma ready_worker_takes_next:
  assumes "i < length (workers w)" and "workers w ! i = Ready" and "queue w = cardId # rest"
  shows "taken (wstep (Resume i) w) = taken w @ [cardId] \<and> queue (wstep (Resume i) w) = rest"
  using assms by (simp add: worker_loop_def split: prod.splits)

lemma weight_update:
  assumes "i < length ws"
  shows "sum_list (map worker_weight (ws[i := x])) + worker_weight (ws ! i)
           = sum_list (map worker_weight ws) + worker_weight x"
  using assms
proof (induction ws arbitrary: i)
  case Nil
  then show ?case by simp
next
  case (Cons y ws)
  then show ?case by (cases i) auto
qed

lemma enabled_step_decreases:
  assumes "enabled ev w"
  shows "pool_measure (wstep ev w) < pool_measure w"
proof (cases ev)
  case (Resume i)
  with assms have i: "i < length (workers w)" and r: "workers w ! i = Ready" by simp_all
  show ?thesis
  proof (cases "queue w")
    case Nil
    have "sum_list (map worker_weight ((workers w)[i := Finished])) + worker_weight (workers w ! i)
            = sum_list (map worker_weight (workers w)) + worker_weight Finished"
      using i by (rule weight_update)
    then show ?thesis using Resume i r Nil by (simp add: pool_measure_def worker_loop_def)
  next
    case (Cons cardId rest)
    obtain c admitted where b: "prefetchOneCard_begin cardId (cl w) = (c, admitted)"
      by (cases "prefetchOneCard_begin cardId (cl w)")
    let ?x = "if admitted then Awaiting cardId else Ready"
    have "sum_list (map worker_weight ((workers w)[i := ?x])) + worker_weight (workers w ! i)
            = sum_list (map worker_weight (workers w)) + worker_weight ?x"
      using i by (rule weight_update)
    then show ?thesis using Resume i r Cons b
      by (simp add: pool_measure_def worker_loop_def split: if_splits)
  qed
next
  case (Done i out)
  with assms obtain cardId where i: "i < length (workers w)"
    and a: "workers w ! i = Awaiting cardId"
    by (auto split: worker.splits)
  have "sum_list (map worker_weight ((workers w)[i := Ready])) + worker_weight (workers w ! i)
          = sum_list (map worker_weight (workers w)) + worker_weight Ready"
    using i by (rule weight_update)
  then show ?thesis using Done i a by (simp add: pool_measure_def prefetchOneCard_end_eq)
qed

lemma unresolved_pool_can_step:
  assumes "pool_inv w" and "\<not> warm_resolved w"
  shows "\<exists>i. enabled (Resume i) w \<or> (\<forall>out. enabled (Done i out) w)"
proof -
  from assms(2) obtain x where x: "x \<in> set (workers w)" "x \<noteq> Finished"
    by (auto simp: warm_resolved_def list_all_iff)
  then obtain i where i: "i < length (workers w)" "workers w ! i = x"
    by (auto simp: in_set_conv_nth)
  have "x \<noteq> Rejected" using assms(1) x(1) by (auto simp: pool_inv_def)
  with x(2) have "x = Ready \<or> (\<exists>cardId. x = Awaiting cardId)" by (cases x) auto
  with i show ?thesis by (intro exI [of _ i]) auto
qed

lemma warmPrefetch_rejects_iff:
  "(\<exists>e. warmPrefetch reply excludeCardId n c = Inl e) \<longleftrightarrow> reply = CandidatesFailed"
  by (cases reply) (simp_all add: warmPrefetch_def)

text \<open>
  Claim C8.  In every state a \<open>warmPrefetch\<close> call can reach after its candidates
  have arrived: no worker has rejected, so \<open>Promise.all\<close> cannot reject; every
  candidate is shifted off the queue at most once, in order, and when the call resolves
  all of them have been; a fetch or synthesis that fails (or yields no URL) leaves the
  cache as it is, removes the card from \<open>inflight\<close> and leaves its worker ready for
  the next candidate; a fetch that succeeds removes the card from \<open>inflight\<close> too.
  Until the call resolves some worker can go on, and every step a worker takes lowers
  \<open>pool_measure\<close>, so the pool reaches the end of the queue.
\<close>

theorem warm_survives_candidate_failures:
  "Rejected \<notin> set (workers (wrun evs (warm_start list c)))
   \<and> taken (wrun evs (warm_start list c)) @ queue (wrun evs (warm_start list c)) = list
   \<and> (warm_resolved (wrun evs (warm_start list c)) \<longrightarrow> taken (wrun evs (warm_start list c)) = list)
   \<and> (\<forall>i cardId out. i < length (workers (wrun evs (warm_start list c)))
          \<and> workers (wrun evs (warm_start list c)) ! i = Awaiting cardId
          \<and> (out = Failed \<or> out = NoUrl) \<longrightarrow>
        cache (cl (wstep (Done i out) (wrun evs (warm_start list c))))
          = cache (cl (wrun evs (warm_start list c)))
        \<and> cardId \<notin> inflight (cl (wstep (Done i out) (wrun evs (warm_start list c))))
        \<and> workers (wstep (Done i out) (wrun evs (warm_start list c))) ! i = Ready)
   \<and> (\<forall>i cardId out. i < length (workers (wrun evs (warm_start list c)))
          \<and> workers (wrun evs (warm_start list c)) ! i = Awaiting cardId \<longrightarrow>
        cardId \<notin> inflight (cl (wstep (Done i out) (wrun evs (warm_start list c)))))
   \<and> (\<forall>i cardId rest. i < length (workers (wrun evs (warm_start list c)))
          \<and> workers (wrun evs (warm_start list c)) ! i = Ready
          \<and> queue (wrun evs (warm_start list c)) = cardId # rest \<longrightarrow>
        taken (wstep (Resume i) (wrun evs (warm_start list c)))
          = taken (wrun evs (warm_start list c)) @ [cardId])
   \<and> (\<not> warm_resolved (wrun evs (warm_start list c)) \<longrightarrow>
        (\<exists>i. enabled (Resume i) (wrun evs (warm_start list c))
            \<or> (\<forall>out. enabled (Done i out) (wrun evs (warm_start list c)))))
   \<and> (\<forall>ev. enabled ev (wrun evs (warm_start list c)) \<longrightarrow>
        pool_measure (wstep ev (wrun evs (warm_start list c)))
          < pool_measure (wrun evs (warm_start list c)))"
proof -
  let ?w = "wrun evs (warm_start list c)"
  have inv: "pool_inv ?w" using warm_start_facts(1) by (rule wrun_inv)
  have tq: "taken ?w @ queue ?w = list" using wrun_taken warm_start_facts(2) by simp
  have len: "length (workers ?w) = length (workers (warm_start list c))"
    by (rule wrun_length)
  have res: "taken ?w = list" if r: "warm_resolved ?w"
  proof (cases "workers ?w")
    case Nil
    then have "list = []" using len warm_start_facts(3) [of list c] by simp
    then show ?thesis using tq by simp
  next
    case (Cons x xs)
    then have "Finished \<in> set (workers ?w)" using r by (simp add: warm_resolved_def)
    then have "queue ?w = []" using inv by (simp add: pool_inv_def)
    then show ?thesis using tq by simp
  qed
  have 1: "Rejected \<notin> set (workers ?w)" using inv by (simp add: pool_inv_def)
  have 4: "\<forall>i cardId out. i < length (workers ?w) \<and> workers ?w ! i = Awaiting cardId
          \<and> (out = Failed \<or> out = NoUrl) \<longrightarrow>
        cache (cl (wstep (Done i out) ?w)) = cache (cl ?w)
        \<and> cardId \<notin> inflight (cl (wstep (Done i out) ?w))
        \<and> workers (wstep (Done i out) ?w) ! i = Ready"
    using failed_candidate_is_skipped [of _ ?w] by auto
  have 5: "\<forall>i cardId out. i < length (workers ?w) \<and> workers ?w ! i = Awaiting cardId \<longrightarrow>
        cardId \<notin> inflight (cl (wstep (Done i out) ?w))"
    using done_leaves_inflight [of _ ?w] by blast
  have 6: "\<forall>i cardId rest. i < length (workers ?w) \<and> workers ?w ! i = Ready
          \<and> queue ?w = cardId # rest \<longrightarrow>
        taken (wstep (Resume i) ?w) = taken ?w @ [cardId]"
    using ready_worker_takes_next [of _ ?w] by blast
  have 7: "\<not> warm_resolved ?w \<longrightarrow>
        (\<exists>i. enabled (Resume i) ?w \<or> (\<forall>out. enabled (Done i out) ?w))"
    using unresolved_pool_can_step [OF inv] by blast
  have 8: "\<forall>ev. enabled ev ?w \<longrightarrow> pool_measure (wstep ev ?w) < pool_measure ?w"
    using enabled_step_decreases by blast
  have 3: "warm_resolved ?w \<longrightarrow> taken ?w = list" using res by blast
  show ?thesis by (intro conjI) (fact 1 tq 3 4 5 6 7 8)+
qed

lemmas pool_eval = worker_loop_def prefetchOneCard_begin_def prefetchOneCard_end_eq map_has_def cacheSet_def
  map_set_def MAX_CACHE_def

lemma warm_example:
  "wrun [Done 1 Failed, Resume 1, Done 0 (Url ''blob:a''), Done 1 (Url ''blob:c''), Resume 0, Resume 1]
        (warm_start [1, 2, 3] init_client)
   = \<lparr>cl = \<lparr>cache = \<lparr>ttsCache = [(1, ''blob:a''), (3, ''blob:c'')], revoked = []\<rparr>,
             inflight = {}, ttsUrl = None, pending = []\<rparr>,
      queue = [], workers = [Finished, Finished], taken = [1, 2, 3]\<rparr>"
proof -
  let ?W = "\<lambda>c inf pend q ws tk.
     \<lparr>cl = \<lparr>cache = \<lparr>ttsCache = c, revoked = []\<rparr>, inflight = inf, ttsUrl = None,
             pending = pend\<rparr>,
      queue = q, workers = ws, taken = tk\<rparr>"
  have c0: "create_workers 0 \<lparr>cl = init_client, queue = [1, 2, 3], workers = [], taken = []\<rparr>
      = create_workers (Suc 0) (?W [] {1} [PrefetchTask 1] [2, 3] [Awaiting 1] [1])"
    by (rule create_workers_step)
       (auto simp: CONCURRENCY_def worker_loop_def prefetchOneCard_begin_def init_client_def
                   empty_cache_def map_has_def)
  have c1: "create_workers (Suc 0) (?W [] {1} [PrefetchTask 1] [2, 3] [Awaiting 1] [1])
      = create_workers (Suc (Suc 0)) (?W [] {1, 2} [PrefetchTask 1, PrefetchTask 2] [3]
                             [Awaiting 1, Awaiting 2] [1, 2])"
    by (rule create_workers_step)
       (auto simp: CONCURRENCY_def worker_loop_def prefetchOneCard_begin_def map_has_def)
  have c2: "create_workers (Suc (Suc 0)) (?W [] {1, 2} [PrefetchTask 1, PrefetchTask 2] [3]
                                 [Awaiting 1, Awaiting 2] [1, 2])
      = ?W [] {1, 2} [PrefetchTask 1, PrefetchTask 2] [3] [Awaiting 1, Awaiting 2] [1, 2]"
    by (rule create_workers_stop) (simp add: CONCURRENCY_def)
  have e0: "warm_start [1, 2, 3] init_client
      = ?W [] {1, 2} [PrefetchTask 1, PrefetchTask 2] [3] [Awaiting 1, Awaiting 2] [1, 2]"
    unfolding warm_start_def by (simp only: c0 c1 c2)
  have e1: "wstep (Done 1 Failed)
        (?W [] {1, 2} [PrefetchTask 1, PrefetchTask 2] [3] [Awaiting 1, Awaiting 2] [1, 2])
      = ?W [] {1} [PrefetchTask 1] [3] [Awaiting 1, Ready] [1, 2]"
    by (auto simp: pool_eval)
  have e2: "wstep (Resume 1) (?W [] {1} [PrefetchTask 1] [3] [Awaiting 1, Ready] [1, 2])
      = ?W [] {1, 3} [PrefetchTask 1, PrefetchTask 3] [] [Awaiting 1, Awaiting 3] [1, 2, 3]"
    by (auto simp: pool_eval)
  have e3: "wstep (Done 0 (Url ''blob:a''))
        (?W [] {1, 3} [PrefetchTask 1, PrefetchTask 3] [] [Awaiting 1, Awaiting 3] [1, 2, 3])
      = ?W [(1, ''blob:a'')] {3} [PrefetchTask 3] [] [Ready, Awaiting 3] [1, 2, 3]"
    by (auto simp: pool_eval)
  have e4: "wstep (Done 1 (Url ''blob:c''))
        (?W [(1, ''blob:a'')] {3} [PrefetchTask 3] [] [Ready, Awaiting 3] [1, 2, 3])
      = ?W [(1, ''blob:a''), (3, ''blob:c'')] {} [] [] [Ready, Ready] [1, 2, 3]"
    by (auto simp: pool_eval)
  have e5: "wstep (Resume 0) (?W [(1, ''blob:a''), (3, ''blob:c'')] {} [] [] [Ready, Ready] [1, 2, 3])
      = ?W [(1, ''blob:a''), (3, ''blob:c'')] {} [] [] [Finished, Ready] [1, 2, 3]"
    by (simp add: pool_eval)
  have e6: "wstep (Resume 1) (?W [(1, ''blob:a''), (3, ''blob:c'')] {} [] [] [Finished, Ready] [1, 2, 3])
      = ?W [(1, ''blob:a''), (3, ''blob:c'')] {} [] [] [Finished, Finished] [1, 2, 3]"
    by (simp add: pool_eval)
  show ?thesis by (simp only: wrun.simps e0 e1 e2 e3 e4 e5 e6)
qed

theorem warm_survives_candidate_failures_witness:
  "taken (wrun [Done 1 Failed, Resume 1, Done 0 (Url ''blob:a''), Done 1 (Url ''blob:c''),
                Resume 0, Resume 1] (warm_start [1, 2, 3] init_client)) = [1, 2, 3]
   \<and> map fst (ttsCache (cache (cl (wrun [Done 1 Failed, Resume 1, Done 0 (Url ''blob:a''),
                Done 1 (Url ''blob:c''), Resume 0, Resume 1] (warm_start [1, 2, 3] init_client)))))
       = [1, 3]
   \<and> warm_resolved (wrun [Done 1 Failed, Resume 1, Done 0 (Url ''blob:a''), Done 1 (Url ''blob:c''),
                Resume 0, Resume 1] (warm_start [1, 2, 3] init_client))"
proof -
  let ?w = "wrun [Done 1 Failed, Resume 1, Done 0 (Url ''blob:a''), Done 1 (Url ''blob:c''),
                Resume 0, Resume 1] (warm_start [1, 2, 3] init_client)"
  have r: "warm_resolved ?w" unfolding warm_example by (simp add: warm_resolved_def)
  note warm_survives_candidate_failures
         [of "[Done 1 Failed, Resume 1, Done 0 (Url ''blob:a''), Done 1 (Url ''blob:c''),
               Resume 0, Resume 1]" "[1, 2, 3]" init_client,
          THEN conjunct2, THEN conjunct2, THEN conjunct1]
  then have t: "taken ?w = [1, 2, 3]" using r by (rule mp)
  have c: "map fst (ttsCache (cache (cl ?w))) = [1, 3]" unfolding warm_example by simp
  from t c r show ?thesis by (intro conjI)
qed


section \<open>Properties of the sequencing guard\<close>

lemma resume_stale_before_request:
  assumes "seqAtStart l \<noteq> currentSeqRef a" and "point l \<noteq> AwaitChain"
  shows "messages (snd (resume v (l, a))) = messages a
       \<and> currentSeqRef (snd (resume v (l, a))) = currentSeqRef a
       \<and> seqAtStart (fst (resume v (l, a))) = seqAtStart l
       \<and> point (fst (resume v (l, a))) \<noteq> AwaitChain"
  using assms by (cases "point l"; cases v) (simp_all add: caught_def returns_def)

lemma advance_counter:
  "currentSeqRef (grade_advance c a) = currentSeqRef a + 1"
  "currentSeqRef (handleStart_advance c a) = currentSeqRef a + 1"
  by (simp_all add: grade_advance_def handleStart_advance_def Let_def)

lemma advance_messages:
  assumes "messages a = messages a'"
  shows "messages (grade_advance c a) = messages (grade_advance c a')"
    and "messages (handleStart_advance c a) = messages (handleStart_advance c a')"
  using assms by (simp_all add: grade_advance_def handleStart_advance_def Let_def)

lemma stale_flow_shows_nothing:
  assumes "seqAtStart l < currentSeqRef a" and "point l \<noteq> AwaitChain"
    and "messages a = messages a'"
  shows "messages (snd (srun evs (l, a)))
           = messages (snd (srun (filter (\<lambda>ev. \<not> is_resume ev) evs) (l', a')))"
  using assms
proof (induction evs arbitrary: l a l' a')
  case Nil
  then show ?case by simp
next
  case (Cons ev evs)
  show ?case
  proof (cases ev)
    case (Resume_flow v)
    obtain l1 a1 where r: "resume v (l, a) = (l1, a1)" by (cases "resume v (l, a)")
    have ne: "seqAtStart l \<noteq> currentSeqRef a" using Cons.prems(1) by simp
    from resume_stale_before_request [OF ne Cons.prems(2), of v]
    have "seqAtStart l1 < currentSeqRef a1" "point l1 \<noteq> AwaitChain" "messages a1 = messages a'"
      using r Cons.prems(1,3) by simp_all
    from Cons.IH [OF this, of l'] show ?thesis
      using Resume_flow r by (simp add: is_resume_def)
  next
    case (Grade c)
    have "seqAtStart l < currentSeqRef (grade_advance c a)"
      using Cons.prems(1) by (simp add: advance_counter)
    moreover have "messages (grade_advance c a) = messages (grade_advance c a')"
      using Cons.prems(3) by (rule advance_messages)
    ultimately show ?thesis
      using Cons.IH [of l "grade_advance c a" "grade_advance c a'" l'] Cons.prems(2) Grade
      by (simp add: is_resume_def)
  next
    case Start_clicked
    have "seqAtStart l < currentSeqRef (handleStart_clicked a)"
      "messages (handleStart_clicked a) = messages (handleStart_clicked a')"
      using Cons.prems(1) by (simp_all add: handleStart_clicked_def)
    then show ?thesis
      using Cons.IH [of l "handleStart_clicked a" "handleStart_clicked a'" l'] Cons.prems(2)
        Start_clicked
      by (simp add: is_resume_def)
  next
    case (Start c)
    have "seqAtStart l < currentSeqRef (handleStart_advance c a)"
      using Cons.prems(1) by (simp add: advance_counter)
    moreover have "messages (handleStart_advance c a) = messages (handleStart_advance c a')"
      using Cons.prems(3) by (rule advance_messages)
    ultimately show ?thesis
      using Cons.IH [of l "handleStart_advance c a" "handleStart_advance c a'" l'] Cons.prems(2) Start
      by (simp add: is_resume_def)
  qed
qed

lemmas flow_eval = startListeningForAnswer_def caught_def returns_def apply_chain_def
  grade_advance_def handleStart_advance_def truthy_def or_else_def say_def show_html_def
  startsWith_def Let_def

text \<open>
  Claim C1.  A flow whose sequence number is stale before it sends the review request
  shows nothing (\<open>stale_flow_shows_nothing\<close>: the messages are those of the run
  without the flow).  After \<open>await API.reviewChain(...)\<close> the number is not compared
  again: here the flow starts at sequence 1, \<open>grade\<close> advances to 2 and shows the
  next front while the review request is under way, and the reply to the stale request
  is appended below it.
\<close>

theorem stale_review_reply_is_appended:
  "srun [Resume_flow Unit, Resume_flow Unit, Resume_flow (BlobOrNull True), Resume_flow Unit,
         Resume_flow (DataUrl ''data:audio/webm;base64,AAAA''),
         Grade \<lparr>card_empty = False, card_frontHTML = Some ''<b>Q2</b>''\<rparr>,
         Resume_flow (Chain \<lparr>chain_ok = True, chain_transcript = Some ''hallo'',
                             chain_reply = Some ''Richtig.'', chain_error = None\<rparr>)]
     (startListeningForAnswer 1 \<lparr>currentSeqRef = 1, messages = ms, recState = UiIdle\<rparr>,
      \<lparr>currentSeqRef = 1, messages = ms, recState = UiIdle\<rparr>)
   = (\<lparr>seqAtStart = 1, point = AwaitFinalStop\<rparr>,
      \<lparr>currentSeqRef = 2,
       messages = ms @ [show_html ''<b>Q2</b>'', say User ''hallo'', say Assistant ''Richtig.''],
       recState = UiIdle\<rparr>)"
  by (simp add: flow_eval)

theorem stale_review_reply_is_appended_witness:
  "messages (snd (srun [Resume_flow Unit, Resume_flow Unit, Resume_flow (BlobOrNull True), Resume_flow Unit,
         Resume_flow (DataUrl ''data:audio/webm;base64,AAAA''),
         Grade \<lparr>card_empty = False, card_frontHTML = Some ''<b>Q2</b>''\<rparr>,
         Resume_flow (Chain \<lparr>chain_ok = True, chain_transcript = Some ''hallo'',
                             chain_reply = Some ''Richtig.'', chain_error = None\<rparr>)]
     (startListeningForAnswer 1 \<lparr>currentSeqRef = 1, messages = [show_html ''<b>Q1</b>''], recState = UiIdle\<rparr>,
      \<lparr>currentSeqRef = 1, messages = [show_html ''<b>Q1</b>''], recState = UiIdle\<rparr>)))
   = [show_html ''<b>Q1</b>'', show_html ''<b>Q2</b>'', say User ''hallo'', say Assistant ''Richtig.'']"
  by (simp only: stale_review_reply_is_appended [of "[show_html ''<b>Q1</b>'']"] snd_conv
        app.simps append.simps)

end
